theory Spec2Isabelle
  imports Main "HOL-Library.Word" "HOL-Library.Sublist"
begin

section \<open>Data model\<close>

text \<open>
  The program is \<^verbatim>\<open>src/sshauth.go\<close>. Bytes are \<^typ>\<open>char\<close> (eight bits), Go's
  \<^verbatim>\<open>[]byte\<close> and \<^verbatim>\<open>string\<close> are byte lists. Go's \<^verbatim>\<open>uint\<close> and \<^verbatim>\<open>int\<close> are
  64-bit words (the 64-bit targets of Go 1.20): \<open>+\<close> and \<open>-\<close> wrap around, \<^verbatim>\<open>uint\<close>
  comparisons are the unsigned order of words, \<^verbatim>\<open>int\<close> comparisons go through
  \<^const>\<open>sint\<close>.
\<close>

type_synonym byte = char
type_synonym uint = "64 word"
type_synonym int64 = "64 word"

abbreviation NUL :: byte where "NUL \<equiv> CHR 0x00"
abbreviation BS :: byte where "BS \<equiv> CHR 0x08"
abbreviation TAB :: byte where "TAB \<equiv> CHR 0x09"
abbreviation LF :: byte where "LF \<equiv> CHR 0x0A"
abbreviation CR :: byte where "CR \<equiv> CHR 0x0D"
abbreviation SP :: byte where "SP \<equiv> CHR 0x20"
abbreviation DEL :: byte where "DEL \<equiv> CHR 0x7F"

text \<open>
  The fields of \<^verbatim>\<open>Options\<close> that the session handler reads. \<open>LldapLogin\<close> stands for
  \<^verbatim>\<open>options.LldapURI.JoinPath("/login").String()\<close> and \<open>passwordRegexp\<close> for the
  \<^verbatim>\<open>Match\<close> method of the compiled \<^verbatim>\<open>PasswordRegexp\<close>: both come from Go's standard
  library and are parameters here.
\<close>

record Options =
  TokenLength :: uint
  ToSuffix :: string
  LdapUserScope :: string
  LldapLogin :: string
  PasswordMin :: uint
  PasswordMax :: uint
  passwordRegexp :: "byte list \<Rightarrow> bool"

text \<open>
  The calls a session makes to its collaborators (mail transport and directory client),
  in the order they are made.
\<close>

datatype call =
  SendMail string string
| Bind
| Search string
| Add string string
| PasswordModify string string

text \<open>
  The session stream \<^verbatim>\<open>s\<close> (an \<^verbatim>\<open>io.ReadWriter\<close>): \<open>pending\<close> holds the bytes the peer
  will still send, one per \<^verbatim>\<open>Read\<close>; once it is empty every \<^verbatim>\<open>Read\<close> returns an
  error (the peer has disconnected). \<open>written\<close> is the sequence of \<^verbatim>\<open>Write\<close> calls, one
  list element per call. \<open>calls\<close> records the collaborator calls.
\<close>

record session =
  pending :: "byte list"
  written :: "string list"
  calls :: "call list"

definition writeString :: "string \<Rightarrow> session \<Rightarrow> session" where
  "writeString m s = s\<lparr>written := written s @ [m]\<rparr>"

definition invoke :: "call \<Rightarrow> session \<Rightarrow> session" where
  "invoke c s = s\<lparr>calls := calls s @ [c]\<rparr>"

section \<open>Line reader\<close>

fun contains :: "'a list \<Rightarrow> 'a \<Rightarrow> bool" where
  "contains [] v = False"
| "contains (s # elems) v = (if v = s then True else contains elems v)"

text \<open>
  The loop of \<^verbatim>\<open>readN\<close> over the bytes still to come, with the loop variables \<^verbatim>\<open>res\<close>
  and \<^verbatim>\<open>in\<close> and the writes made so far. The empty input is the failing \<^verbatim>\<open>Read\<close>.
  The cases are those of the \<^verbatim>\<open>switch\<close>, in its order. Both indexed stores are in range
  whenever the loop is entered from \<open>readN\<close> (see \<open>readN_loop_inv\<close>).
\<close>

fun readN_loop ::
  "uint \<Rightarrow> byte list \<Rightarrow> bool \<Rightarrow> byte list \<Rightarrow> byte list \<Rightarrow> uint \<Rightarrow> string list
    \<Rightarrow> byte list \<times> uint \<times> byte list \<times> string list" where
  "readN_loop l onlyIn wr [] res n out = (res, n, [], out)"
| "readN_loop l onlyIn wr (b # bs) res n out =
     (if b = DEL then
        (if n > 0 then
           readN_loop l onlyIn wr bs (res[unat (n - 1) := SP]) (n - 1)
             (if wr then out @ [[BS, SP, BS]] else out)
         else readN_loop l onlyIn wr bs res n out)
      else if b = CR then (res, n, bs, out @ [[LF, CR]])
      else if length onlyIn > 0 \<and> \<not> contains onlyIn b then
        readN_loop l onlyIn wr bs res n out
      else if n < l then
        readN_loop l onlyIn wr bs (res[unat n := b]) (n + 1)
          (if wr then out @ [[b]] else out)
      else readN_loop l onlyIn wr bs res n out)"

definition readN :: "session \<Rightarrow> uint \<Rightarrow> byte list \<Rightarrow> bool \<Rightarrow> (byte list \<times> uint) \<times> session" where
  "readN s l onlyIn wr =
     (case readN_loop l onlyIn wr (pending s) (replicate (unat l) NUL) 0 (written s) of
        (res, n, bs, out) \<Rightarrow> ((res, n), s\<lparr>pending := bs, written := out\<rparr>))"

section \<open>Messages\<close>

text \<open>
  \<^verbatim>\<open>fmt.Sprintf\<close> with \<^verbatim>\<open>%s\<close> is concatenation; \<^verbatim>\<open>%d\<close> prints a decimal numeral,
  with a minus sign for a negative \<^verbatim>\<open>int\<close>.
\<close>

fun decimal :: "nat \<Rightarrow> string" where
  "decimal n =
     (if n < 10 then [''0123456789'' ! n]
      else decimal (n div 10) @ [''0123456789'' ! (n mod 10)])"

definition format_int :: "int \<Rightarrow> string" where
  "format_int k = (if k < 0 then ''-'' @ decimal (nat (- k)) else decimal (nat k))"

definition WELCOME_BODY :: "string \<Rightarrow> string" where
  "WELCOME_BODY mail =
     ''Welcome.'' @ [LF] @ ''Sending a mail to '' @ mail @ '', do you accept? (y/N): ''"

definition TOKEN_BODY :: string where
  "TOKEN_BODY = ''Enter the token you recieved by mail: ''"

definition TOKEN_FAILED :: string where
  "TOKEN_FAILED = ''Invalid token. Verification failed.'' @ [LF]"

definition TOKEN_RETRY :: "int64 \<Rightarrow> string" where
  "TOKEN_RETRY i =
     ''Invalid token. Please, try again (you have '' @ format_int (sint i)
       @ '' more retries)'' @ [LF]"

definition ALREADY_REGISTERED :: "string \<Rightarrow> string" where
  "ALREADY_REGISTERED url =
     ''You'' @ [CHR 0x27] @ ''re already registered.'' @ [LF]
       @ ''You can authenticate over at'' @ [LF, TAB] @ url @ [LF]
       @ ''to manage your account. Bye!''"

definition PASWORD_RULES :: "uint \<Rightarrow> uint \<Rightarrow> string" where
  "PASWORD_RULES lo hi =
     ''Please, enter your password twice. It must respect the following rules:'' @ [LF]
       @ ''- The length must be between '' @ decimal (unat lo) @ '' and '' @ decimal (unat hi)
       @ '' (included)'' @ [LF]
       @ ''- It must contain at least one letter and one digit'' @ [LF]"

definition PASSWORD_FAILED :: string where
  "PASSWORD_FAILED = ''Password attempts failed. Logging out.''"

definition REGISTRATION_SUCCESS :: "string \<Rightarrow> string" where
  "REGISTRATION_SUCCESS url =
     ''You are now registered! You can authenticate over at'' @ [LF, TAB] @ url @ [LF]
       @ ''to manage your account. Bye!''"

section \<open>Collaborators\<close>

text \<open>
  What the mail transport, the directory client and the random source answer is outside
  the program; a session is run against one fixed choice of answers. \<open>rand_Intn k\<close> is
  the result of the \<open>k\<close>-th call of \<^verbatim>\<open>rand.Intn(len(runes))\<close>, which lies below
  \<^verbatim>\<open>len(runes)\<close>. \<open>search_entries uid\<close> is the number of entries the directory search
  for \<open>uid\<close> returns, or \<open>None\<close> when the search fails. The other fields say whether
  the call returns an error.
\<close>

datatype err = MailError | BindError | SearchError | AddError | PasswordModifyError

record collaborators =
  rand_Intn :: "nat \<Rightarrow> nat"
  sendmail_err :: "string \<Rightarrow> string \<Rightarrow> bool"
  bind_err :: bool
  search_entries :: "string \<Rightarrow> nat option"
  add_err :: "string \<Rightarrow> bool"
  passwordModify_err :: "string \<Rightarrow> bool"

definition letters :: string where
  "letters = ''abcdefghijklmnopqrstuvwxyzABCDEFGHIJKLMNOPQRSTUVWXYZ1234567890''"

definition runes :: string where
  "runes = letters"

definition randomString :: "collaborators \<Rightarrow> uint \<Rightarrow> string" where
  "randomString env n = map (\<lambda>k. runes ! (rand_Intn env k mod length runes)) [0..<unat n]"

text \<open>
  \<^verbatim>\<open>sendmail\<close> talks SMTP to the mail server; the handler only looks at whether the
  returned error is nil.
\<close>

definition sendmail :: "collaborators \<Rightarrow> string \<Rightarrow> string \<Rightarrow> session \<Rightarrow> err option \<times> session" where
  "sendmail env dest token s =
     (if sendmail_err env dest token then Some MailError else None,
      invoke (SendMail dest token) s)"

definition bind :: "collaborators \<Rightarrow> session \<Rightarrow> err option \<times> session" where
  "bind env s = (if bind_err env then Some BindError else None, invoke Bind s)"

definition exists :: "collaborators \<Rightarrow> string \<Rightarrow> session \<Rightarrow> (err + bool) \<times> session" where
  "exists env uid s =
     (case search_entries env uid of
        None \<Rightarrow> (Inl SearchError, invoke (Search uid) s)
      | Some k \<Rightarrow> (Inr (k > 0), invoke (Search uid) s))"

definition register ::
  "Options \<Rightarrow> collaborators \<Rightarrow> string \<Rightarrow> string \<Rightarrow> string \<Rightarrow> session \<Rightarrow> err option \<times> session" where
  "register cfg env uid email password s =
     (let user = ''uid='' @ uid @ '','' @ LdapUserScope cfg;
          s1 = invoke (Add user email) s
      in if add_err env user then (Some AddError, s1)
         else
           (let s2 = invoke (PasswordModify user password) s1
            in if passwordModify_err env user then (Some PasswordModifyError, s2)
               else (None, s2)))"

section \<open>Password policy\<close>

definition readPassword :: "Options \<Rightarrow> session \<Rightarrow> (bool \<times> string) \<times> session" where
  "readPassword cfg s =
     (case readN s (PasswordMax cfg) letters False of
        ((passwd, read), s1) \<Rightarrow>
          if read < PasswordMin cfg then ((False, ''Password is too short''), s1)
          else if \<not> passwordRegexp cfg passwd then
            ((False, ''Password does not comply with the rules''), s1)
          else ((True, passwd), s1))"

section \<open>Session handler\<close>

text \<open>
  The three retry loops of the handler, each with its counter \<^verbatim>\<open>i\<close> (a Go \<^verbatim>\<open>int\<close>).
  \<open>tokenLoop\<close> is lines 258 to 272: it returns whether the loop was left by
  \<^verbatim>\<open>break\<close> (\<open>True\<close>) or by \<^verbatim>\<open>return\<close> (\<open>False\<close>).
\<close>

function tokenLoop :: "Options \<Rightarrow> string \<Rightarrow> int64 \<Rightarrow> session \<Rightarrow> bool \<times> session" where
  "tokenLoop cfg token i s =
     (case readN (writeString TOKEN_BODY s) (TokenLength cfg) [] True of
        ((buf, read), s1) \<Rightarrow>
          if read \<noteq> TokenLength cfg \<or> buf \<noteq> token then
            (if i - 1 = 0 then (False, writeString TOKEN_FAILED s1)
             else tokenLoop cfg token (i - 1) (writeString (TOKEN_RETRY (i - 1)) s1))
          else (True, s1))"
  by pat_completeness auto
termination
proof (relation "measure (\<lambda>(cfg, token, i, s). unat (i - 1))")
  show "wf (measure (\<lambda>(cfg, token, i, s). unat (i - 1)))"
    by simp
next
  fix cfg :: Options and token :: string and i :: int64 and s x y :: session
    and xa :: "byte list \<times> uint" and xb :: "byte list" and ya :: uint
  assume nz: "i - 1 \<noteq> 0"
  have "unat (i - 1 - 1) = unat (i - 1) - 1"
    by (rule unat_minus_one [OF nz])
  moreover have "0 < unat (i - 1)"
    by (rule iffD2 [OF unat_gt_0 nz])
  ultimately show "((cfg, token, i - 1, writeString (TOKEN_RETRY (i - 1)) y), cfg, token, i, s)
      \<in> measure (\<lambda>(cfg, token, i, s). unat (i - 1))"
    by simp
qed

text \<open>
  \<open>passwordLoop\<close> is lines 293 to 307: \<open>Some (passwd, i)\<close> when the loop is left by
  \<^verbatim>\<open>break\<close>, with the counter as it stands, \<open>None\<close> when the handler returns.
\<close>

function passwordLoop :: "Options \<Rightarrow> int64 \<Rightarrow> session \<Rightarrow> (string \<times> int64) option \<times> session" where
  "passwordLoop cfg i s =
     (case readPassword cfg (writeString ''Password: '' s) of
        ((ok, firstPasswd), s1) \<Rightarrow>
          if \<not> ok then
            (if sint (i - 1) \<le> 0 then
               (None, writeString PASSWORD_FAILED (writeString (firstPasswd @ [LF]) s1))
             else passwordLoop cfg (i - 1) (writeString (firstPasswd @ [LF]) s1))
          else (Some (firstPasswd, i - 1), s1))"
  by pat_completeness auto
termination
proof (relation "measure (\<lambda>(cfg, i, s). unat (i - 1))")
  show "wf (measure (\<lambda>(cfg, i, s). unat (i - 1)))"
    by simp
next
  fix cfg :: Options and i :: int64 and s x y :: session
    and xa :: "bool \<times> string" and xb :: bool and ya :: string
  assume "\<not> sint (i - 1) \<le> 0"
  then have nz: "i - 1 \<noteq> 0" by auto
  have "unat (i - 1 - 1) = unat (i - 1) - 1"
    by (rule unat_minus_one [OF nz])
  moreover have "0 < unat (i - 1)"
    by (rule iffD2 [OF unat_gt_0 nz])
  ultimately show "((cfg, i - 1, writeString (ya @ [LF]) y), cfg, i, s)
      \<in> measure (\<lambda>(cfg, i, s). unat (i - 1))"
    by simp
qed


text \<open>
  \<open>repeatLoop\<close> is lines 308 to 325, with the first password \<^verbatim>\<open>passwd\<close>: \<open>True\<close> when
  the loop is left by \<^verbatim>\<open>break\<close>, \<open>False\<close> when the handler returns.
\<close>

function repeatLoop :: "Options \<Rightarrow> string \<Rightarrow> int64 \<Rightarrow> session \<Rightarrow> bool \<times> session" where
  "repeatLoop cfg passwd i s =
     (case readPassword cfg (writeString ''Repeat your password: '' s) of
        ((ok, secondPassword), s1) \<Rightarrow>
          (case (if ok \<and> secondPassword \<noteq> passwd
                 then (False, ''Passwords don'' @ [CHR 0x27] @ ''t match'')
                 else (ok, secondPassword)) of
             (ok, secondPassword) \<Rightarrow>
               if \<not> ok then
                 (if sint (i - 1) \<le> 0 then
                    (False, writeString PASSWORD_FAILED (writeString (secondPassword @ [LF]) s1))
                  else repeatLoop cfg passwd (i - 1) (writeString (secondPassword @ [LF]) s1))
               else (True, s1)))"
  by pat_completeness auto
termination
  apply (relation "measure (\<lambda>(cfg, passwd, i, s). unat (i - 1))")
   apply simp
  subgoal premises prems for cfg passwd i
  proof -
    have nz: "i - 1 \<noteq> 0" using prems by auto
    have "unat (i - 1 - 1) = unat (i - 1) - 1"
      by (rule unat_minus_one [OF nz])
    moreover have "0 < unat (i - 1)"
      by (rule iffD2 [OF unat_gt_0 nz])
    ultimately show ?thesis by simp
  qed
  done

text \<open>
  How a session ends: one constructor for each \<^verbatim>\<open>return\<close> of the handler, for each
  \<^verbatim>\<open>log.Fatalf\<close> (which ends the process) and for the end of the handler's body.
\<close>

datatype outcome =
  Declined
| MailFailed
| TokenFailed
| BindFatal
| SearchFatal
| AlreadyRegistered
| PasswordFailed
| RegisterFatal
| Registered

text \<open>
  Lines 292 to 325 of the handler, the two password loops with their shared counter:
  \<open>Some passwd\<close> when both loops are left by \<^verbatim>\<open>break\<close>, \<open>None\<close> when the handler
  returns from one of them.
\<close>

definition collectConfirmed :: "Options \<Rightarrow> session \<Rightarrow> string option \<times> session" where
  "collectConfirmed cfg s =
     (case passwordLoop cfg 3 s of
        (None, s1) \<Rightarrow> (None, s1)
      | (Some (passwd, i), s1) \<Rightarrow>
          (case repeatLoop cfg passwd i s1 of
             (False, s2) \<Rightarrow> (None, s2)
           | (True, s2) \<Rightarrow> (Some passwd, s2)))"

text \<open>
  Lines 273 to 330 of the handler: the directory part, entered once the token is verified.
\<close>

definition directoryFlow ::
  "Options \<Rightarrow> collaborators \<Rightarrow> string \<Rightarrow> string \<Rightarrow> session \<Rightarrow> outcome \<times> session" where
  "directoryFlow cfg env user mail s =
     (case bind env s of
        (Some e, s1) \<Rightarrow> (BindFatal, s1)
      | (None, s1) \<Rightarrow>
          (case exists env user s1 of
             (Inl e, s2) \<Rightarrow> (SearchFatal, s2)
           | (Inr registered, s2) \<Rightarrow>
               if registered then
                 (AlreadyRegistered, writeString (ALREADY_REGISTERED (LldapLogin cfg)) s2)
               else
                 (case collectConfirmed cfg
                         (writeString (PASWORD_RULES (PasswordMin cfg) (PasswordMax cfg))
                           (writeString
                             (''You'' @ [CHR 0x27]
                                @ ''re not registered. Proceeding with the registration process''
                                @ [LF]) s2)) of
                    (None, s3) \<Rightarrow> (PasswordFailed, s3)
                  | (Some passwd, s3) \<Rightarrow>
                      (case register cfg env user mail passwd
                              (writeString
                                (''Registering user with the given password'' @ [LF]) s3) of
                         (Some e, s4) \<Rightarrow> (RegisterFatal, s4)
                       | (None, s4) \<Rightarrow>
                           (Registered,
                            writeString (ALREADY_REGISTERED (LldapLogin cfg)) s4)))))"

text \<open>
  The handler passed to \<^verbatim>\<open>ssh.Handle\<close> (lines 239 to 331), for the peer \<^verbatim>\<open>s.User()\<close>.
  The operator log (\<^verbatim>\<open>log.Printf\<close>) is not part of the model.
\<close>

definition handler :: "Options \<Rightarrow> collaborators \<Rightarrow> string \<Rightarrow> session \<Rightarrow> outcome \<times> session" where
  "handler cfg env user s =
     (let mail = user @ ToSuffix cfg in
      (case readN (writeString (WELCOME_BODY mail) s) 1 [CHR ''y'', CHR ''n''] True of
         ((buf, read), s1) \<Rightarrow>
           if read < 1 \<or> buf ! 0 \<noteq> CHR ''y'' then
             (Declined, writeString (''Bye!'' @ [LF]) s1)
           else
             (let token = randomString env (TokenLength cfg) in
              (case sendmail env mail token s1 of
                 (Some e, s2) \<Rightarrow>
                   (MailFailed, writeString (''Could not send mail'' @ [LF]) s2)
               | (None, s2) \<Rightarrow>
                   (case tokenLoop cfg token 3 s2 of
                      (False, s3) \<Rightarrow> (TokenFailed, s3)
                    | (True, s3) \<Rightarrow> directoryFlow cfg env user mail s3)))))"

section \<open>Notions used to state the properties\<close>

text \<open>A fresh connection on which the peer will send \<open>bs\<close> and then disconnect.\<close>

definition connect :: "byte list \<Rightarrow> session" where
  "connect bs = \<lparr>pending = bs, written = [], calls = []\<rparr>"

text \<open>
  The reader's filter in the specification's words: a byte passes when no allowed set is
  configured or the byte belongs to it.
\<close>

definition passes :: "byte list \<Rightarrow> byte \<Rightarrow> bool" where
  "passes onlyIn b = (onlyIn = [] \<or> b \<in> set onlyIn)"

text \<open>
  The specification's count of a line: the bytes up to the first carriage return are
  scanned with two unbounded counters, \<open>a\<close> for appends (a passing byte while fewer than
  \<open>L\<close> are held) and \<open>e\<close> for erasures (a delete byte while at least one is held).
\<close>

fun tally :: "nat \<Rightarrow> byte list \<Rightarrow> byte list \<Rightarrow> nat \<Rightarrow> nat \<Rightarrow> nat \<times> nat" where
  "tally L onlyIn [] a e = (a, e)"
| "tally L onlyIn (b # bs) a e =
     (if b = CR then (a, e)
      else if b = DEL then
        (if e < a then tally L onlyIn bs a (Suc e) else tally L onlyIn bs a e)
      else if passes onlyIn b \<and> a - e < L then tally L onlyIn bs (Suc a) e
      else tally L onlyIn bs a e)"


text \<open>
  One token attempt in the specification's words: prompt, read \<open>TokenLength\<close> bytes with
  echo and without filter, and compare count and bytes with the issued token.
\<close>

definition token_attempt :: "Options \<Rightarrow> string \<Rightarrow> session \<Rightarrow> bool \<times> session" where
  "token_attempt cfg token s =
     (case readN (writeString TOKEN_BODY s) (TokenLength cfg) [] True of
        ((buf, read), s1) \<Rightarrow> (read = TokenLength cfg \<and> buf = token, s1))"

text \<open>
  What a session shows of its password stage: the number of password prompts written
  (attempts made) and the number of rejection messages written (attempts failed).
\<close>

definition password_prompts :: "string list \<Rightarrow> nat" where
  "password_prompts out =
     length (filter (\<lambda>m. m = ''Password: '' \<or> m = ''Repeat your password: '') out)"

definition password_rejections :: "string list \<Rightarrow> nat" where
  "password_rejections out =
     length (filter (\<lambda>m. m = ''Password is too short'' @ [LF]
                       \<or> m = ''Password does not comply with the rules'' @ [LF]
                       \<or> m = ''Passwords don'' @ [CHR 0x27] @ ''t match'' @ [LF]) out)"

declare tokenLoop.simps [simp del] passwordLoop.simps [simp del] repeatLoop.simps [simp del]

text \<open>
  A configuration to run sessions on: the default values of the \<^verbatim>\<open>Options\<close> struct, the
  login address built from the default \<^verbatim>\<open>LLDAP_URI\<close>, and a pattern that asks for a
  letter and a digit somewhere in the password.
\<close>

definition example_options :: Options where
  "example_options =
     \<lparr>TokenLength = 6, ToSuffix = ''@localhost'',
      LdapUserScope = ''ou=people,dc=example,dc=com'',
      LldapLogin = ''https://localhost:17170/login'',
      PasswordMin = 8, PasswordMax = 32,
      passwordRegexp = (\<lambda>p. list_ex (\<lambda>c. c \<in> set (take 52 letters)) p
                            \<and> list_ex (\<lambda>c. c \<in> set (drop 52 letters)) p)\<rparr>"

text \<open>
  Observations on the collaborator calls of a session: the registration calls (add entry
  and set password) among them, and whether every registration call comes after a search
  for the user (\<open>seen\<close> says whether such a search has been met).
\<close>

definition registration_calls :: "call list \<Rightarrow> call list" where
  "registration_calls cs =
     filter (\<lambda>c. case c of Add d m \<Rightarrow> True | PasswordModify d p \<Rightarrow> True | _ \<Rightarrow> False) cs"

fun searched_first :: "string \<Rightarrow> bool \<Rightarrow> call list \<Rightarrow> bool" where
  "searched_first user seen [] = True"
| "searched_first user seen (Search u # cs) = searched_first user (seen \<or> u = user) cs"
| "searched_first user seen (Add d m # cs) = (seen \<and> searched_first user seen cs)"
| "searched_first user seen (PasswordModify d p # cs) = (seen \<and> searched_first user seen cs)"
| "searched_first user seen (c # cs) = searched_first user seen cs"

text \<open>
  Collaborators that never fail and know no user; the random source draws the letters
  in their order, so that the token of length 6 is \<open>abcdef\<close>.
\<close>

definition example_collaborators :: collaborators where
  "example_collaborators =
     \<lparr>rand_Intn = (\<lambda>k. k), sendmail_err = (\<lambda>dest token. False), bind_err = False,
      search_entries = (\<lambda>uid. Some 0), add_err = (\<lambda>dn. False),
      passwordModify_err = (\<lambda>dn. False)\<rparr>"

text \<open>
  The password collection in the words of the attempt budget: attempts are numbered
  from 1 through both phases, every attempt uses one unit of a budget of 3 whether it
  is accepted or rejected, and the check comes only after a rejected attempt. So a
  rejected attempt ends the session exactly when its number \<open>k\<close> is 3 or more, and an
  accepted attempt never does. \<open>confirm_by_attempts\<close> is the confirmation phase
  whose next attempt has the number \<open>k\<close>, \<open>collect_by_attempts\<close> the first phase.
\<close>

function confirm_by_attempts :: "Options \<Rightarrow> string \<Rightarrow> nat \<Rightarrow> session \<Rightarrow> string option \<times> session" where
  "confirm_by_attempts cfg passwd k s =
     (case readPassword cfg (writeString ''Repeat your password: '' s) of
        ((ok, entry), s1) \<Rightarrow>
          if ok \<and> entry = passwd then (Some passwd, s1)
          else if 3 \<le> k then
            (None, writeString PASSWORD_FAILED
               (writeString ((if ok then ''Passwords don'' @ [CHR 0x27] @ ''t match''
                              else entry) @ [LF]) s1))
          else confirm_by_attempts cfg passwd (Suc k)
                 (writeString ((if ok then ''Passwords don'' @ [CHR 0x27] @ ''t match''
                                else entry) @ [LF]) s1))"
  by pat_completeness auto
termination
  by (relation "measure (\<lambda>(cfg, passwd, k, s). 3 - k)") auto

function collect_by_attempts :: "Options \<Rightarrow> nat \<Rightarrow> session \<Rightarrow> string option \<times> session" where
  "collect_by_attempts cfg k s =
     (case readPassword cfg (writeString ''Password: '' s) of
        ((ok, entry), s1) \<Rightarrow>
          if ok then confirm_by_attempts cfg entry (Suc k) s1
          else if 3 \<le> k then
            (None, writeString PASSWORD_FAILED (writeString (entry @ [LF]) s1))
          else collect_by_attempts cfg (Suc k) (writeString (entry @ [LF]) s1))"
  by pat_completeness auto
termination
  by (relation "measure (\<lambda>(cfg, k, s). 3 - k)") auto

declare confirm_by_attempts.simps [simp del] collect_by_attempts.simps [simp del]

section \<open>Properties of the line reader\<close>

lemma contains_iff: "contains xs v \<longleftrightarrow> v \<in> set xs"
  by (induction xs) auto

lemma uint_pos_iff: "(0 < (n::uint)) = (0 < unat n)"
  by (simp add: word_less_nat_alt)

lemma uint_dec: "0 < (n::uint) \<Longrightarrow> unat (n - 1) = unat n - 1"
  by (metis unat_minus_one word_gt_0)

lemma uint_inc: "(n::uint) < l \<Longrightarrow> unat (n + 1) = Suc (unat n)"
proof -
  assume "n < l"
  then have "unat n < unat l" by (simp add: word_less_nat_alt)
  moreover have "unat l < 2 ^ LENGTH(64)" by (rule unsigned_less)
  ultimately have "unat n + unat (1::uint) < 2 ^ LENGTH(64)" by simp
  then have "unat (n + 1) = unat n + unat (1::uint)"
    by (simp only: unat_add_lem)
  then show ?thesis by simp
qed

lemma readN_loop_inv:
  assumes "length res = unat l" "n \<le> l"
    "\<forall>k. unat n \<le> k \<and> k < unat l \<longrightarrow> res ! k = NUL \<or> res ! k = SP"
    "readN_loop l f w bs res n out = (res', n', bs', out')"
  shows "length res' = unat l \<and> n' \<le> l \<and>
    (\<forall>k. unat n' \<le> k \<and> k < unat l \<longrightarrow> res' ! k = NUL \<or> res' ! k = SP)"
  using assms
proof (induction bs arbitrary: res n out)
  case Nil
  then show ?case by simp
next
  case (Cons b bs)
  show ?case
  proof (cases "b = DEL")
    case True
    show ?thesis
    proof (cases "0 < n")
      case pos: True
      have d: "unat (n - 1) = unat n - 1" using pos by (rule uint_dec)
      have p: "0 < unat n" using pos by (simp add: uint_pos_iff)
      have le: "n - 1 \<le> l" using Cons.prems(2) d by (simp add: word_le_nat_alt)
      have run: "readN_loop l f w bs (res[unat (n - 1) := SP]) (n - 1)
            (if w then out @ [[BS, SP, BS]] else out) = (res', n', bs', out')"
        using Cons.prems(4) True pos by simp
      have pad: "\<forall>k. unat (n - 1) \<le> k \<and> k < unat l \<longrightarrow>
          (res[unat (n - 1) := SP]) ! k = NUL \<or> (res[unat (n - 1) := SP]) ! k = SP"
      proof (intro allI impI)
        fix k assume k: "unat (n - 1) \<le> k \<and> k < unat l"
        show "(res[unat (n - 1) := SP]) ! k = NUL \<or> (res[unat (n - 1) := SP]) ! k = SP"
        proof (cases "k = unat (n - 1)")
          case True
          then show ?thesis using k Cons.prems(1) by simp
        next
          case False
          then have "unat n \<le> k" using k d by linarith
          then show ?thesis using False k Cons.prems(3) by simp
        qed
      qed
      show ?thesis
        by (rule Cons.IH [OF _ le pad run]) (simp add: Cons.prems(1))
    next
      case False
      then have "readN_loop l f w bs res n out = (res', n', bs', out')"
        using Cons.prems(4) True by simp
      then show ?thesis
        by (rule Cons.IH [OF Cons.prems(1) Cons.prems(2) Cons.prems(3)])
    qed
  next
    case nd: False
    show ?thesis
    proof (cases "b = CR")
      case True
      then show ?thesis using Cons.prems nd by simp
    next
      case nc: False
      show ?thesis
      proof (cases "(length f > 0 \<and> \<not> contains f b) \<or> \<not> n < l")
        case True
        then have "readN_loop l f w bs res n out = (res', n', bs', out')"
          using Cons.prems(4) nd nc by (auto split: if_splits)
        then show ?thesis
          by (rule Cons.IH [OF Cons.prems(1) Cons.prems(2) Cons.prems(3)])
      next
        case False
        then have lt: "n < l" by simp
        have i: "unat (n + 1) = Suc (unat n)" using lt by (rule uint_inc)
        have le: "n + 1 \<le> l" using lt by (rule inc_le)
        have run: "readN_loop l f w bs (res[unat n := b]) (n + 1)
            (if w then out @ [[b]] else out) = (res', n', bs', out')"
          using Cons.prems(4) nd nc False by auto
        have pad: "\<forall>k. unat (n + 1) \<le> k \<and> k < unat l \<longrightarrow>
            (res[unat n := b]) ! k = NUL \<or> (res[unat n := b]) ! k = SP"
          using Cons.prems(3) i by simp
        show ?thesis
          by (rule Cons.IH [OF _ le pad run]) (simp add: Cons.prems(1))
      qed
    qed
  qed
qed


lemma readN_loop_tally:
  assumes "unat n = a - e" "e \<le> a"
    "readN_loop l f w bs res n out = (res', n', bs', out')"
    "tally (unat l) f bs a e = (a', e')"
  shows "e' \<le> a' \<and> unat n' = a' - e'"
  using assms
proof (induction bs arbitrary: res n out a e)
  case Nil
  then show ?case by simp
next
  case (Cons b bs)
  show ?case
  proof (cases "b = DEL")
    case True
    show ?thesis
    proof (cases "0 < n")
      case pos: True
      have d: "unat (n - 1) = unat n - 1" using pos by (rule uint_dec)
      have p: "0 < unat n" using pos by (simp add: uint_pos_iff)
      then have ea: "e < a" using Cons.prems(1) by simp
      have run: "readN_loop l f w bs (res[unat (n - 1) := SP]) (n - 1)
            (if w then out @ [[BS, SP, BS]] else out) = (res', n', bs', out')"
        using Cons.prems(3) True pos by simp
      have t: "tally (unat l) f bs a (Suc e) = (a', e')"
        using Cons.prems(4) True ea by simp
      have c: "unat (n - 1) = a - Suc e" using d Cons.prems(1) by simp
      show ?thesis
        by (rule Cons.IH [OF c _ run t]) (use ea in simp)
    next
      case False
      then have z: "unat n = 0" by (simp add: uint_pos_iff)
      then have ea: "\<not> e < a" using Cons.prems(1) by simp
      have run: "readN_loop l f w bs res n out = (res', n', bs', out')"
        using Cons.prems(3) True False by simp
      have t: "tally (unat l) f bs a e = (a', e')"
        using Cons.prems(4) True ea by simp
      show ?thesis
        by (rule Cons.IH [OF Cons.prems(1) Cons.prems(2) run t])
    qed
  next
    case nd: False
    show ?thesis
    proof (cases "b = CR")
      case True
      then show ?thesis using Cons.prems nd by simp
    next
      case nc: False
      have lt: "n < l \<longleftrightarrow> a - e < unat l"
        using Cons.prems(1) by (simp add: word_less_nat_alt)
      have ps: "(length f > 0 \<and> \<not> contains f b) \<longleftrightarrow> \<not> passes f b"
        by (auto simp: passes_def contains_iff)
      show ?thesis
      proof (cases "passes f b \<and> n < l")
        case False
        then have run: "readN_loop l f w bs res n out = (res', n', bs', out')"
          using Cons.prems(3) nd nc ps by (auto split: if_splits)
        have t: "tally (unat l) f bs a e = (a', e')"
          using Cons.prems(4) nd nc False lt by (auto split: if_splits)
        show ?thesis
          by (rule Cons.IH [OF Cons.prems(1) Cons.prems(2) run t])
      next
        case True
        then have i: "unat (n + 1) = Suc (unat n)" by (blast intro: uint_inc)
        have run: "readN_loop l f w bs (res[unat n := b]) (n + 1)
            (if w then out @ [[b]] else out) = (res', n', bs', out')"
          using Cons.prems(3) nd nc True ps by (auto split: if_splits)
        have t: "tally (unat l) f bs (Suc a) e = (a', e')"
          using Cons.prems(4) nd nc True lt by (auto split: if_splits)
        have c: "unat (n + 1) = Suc a - e" using i Cons.prems(1) Cons.prems(2) by simp
        show ?thesis
          by (rule Cons.IH [OF c _ run t]) (use Cons.prems(2) in simp)
      qed
    qed
  qed
qed

lemma readN_loop_rest:
  "readN_loop l f w bs res n out = (res', n', bs', out') \<Longrightarrow>
     bs' = (if CR \<in> set bs then tl (dropWhile (\<lambda>b. b \<noteq> CR) bs) else [])"
  by (induction bs arbitrary: res n out) (auto split: if_splits)

lemma readN_loop_silent:
  "readN_loop l f False bs res n out = (res', n', bs', out') \<Longrightarrow>
     out' = out @ (if CR \<in> set bs then [[LF, CR]] else [])"
  by (induction bs arbitrary: res n out) (auto split: if_splits)

lemma readN_loop_append:
  "CR \<notin> set pre \<Longrightarrow>
     readN_loop l f w (pre @ rest) res n out =
       (case readN_loop l f w pre res n out of
          (res1, n1, bs1, out1) \<Rightarrow> readN_loop l f w rest res1 n1 out1)"
  by (induction pre arbitrary: res n out) auto

lemma readN_loop_chunks:
  "readN_loop l f w bs res n out = (res', n', bs', out') \<Longrightarrow>
     \<exists>new. out' = out @ new \<and> (\<forall>c \<in> set new. length c \<le> 3)"
proof (induction bs arbitrary: res n out)
  case Nil
  then show ?case by simp
next
  case (Cons b bs)
  then show ?case
    by (fastforce split: if_splits)
qed

lemma readN_loop_newline:
  "readN_loop l f w bs res n out = (res', n', bs', out') \<Longrightarrow> CR \<in> set bs \<Longrightarrow>
     \<exists>echo. out' = out @ echo @ [[LF, CR]]"
proof (induction bs arbitrary: res n out)
  case Nil
  then show ?case by simp
next
  case (Cons b bs)
  show ?case
  proof (cases "b = CR")
    case True
    then show ?thesis using Cons.prems by (auto intro: exI [of _ "[]"])
  next
    case False
    then have cr: "CR \<in> set bs" using Cons.prems(2) by simp
    have step: "\<exists>res1 n1 add. readN_loop l f w bs res1 n1 (out @ add) = (res', n', bs', out')"
    proof (cases "readN_loop l f w (b # bs) res n out = readN_loop l f w bs res n out")
      case True
      then have "readN_loop l f w bs res n (out @ []) = (res', n', bs', out')"
        using Cons.prems(1) by simp
      then show ?thesis by blast
    next
      case diff: False
      then show ?thesis
        using Cons.prems(1) False
        by (simp split: if_splits) (blast | metis append_Nil2)+
    qed
    then obtain res1 n1 add where
      run: "readN_loop l f w bs res1 n1 (out @ add) = (res', n', bs', out')" by blast
    from Cons.IH [OF run cr] obtain echo where "out' = (out @ add) @ echo @ [[LF, CR]]" by blast
    then have "out' = out @ (add @ echo) @ [[LF, CR]]" by simp
    then show ?thesis by blast
  qed
qed


text \<open>
  Claim C7. Whatever the maximum length, the allowed set, the echo flag and the bytes to
  come, the count the reader returns is at most \<open>l\<close> and is the number of appends minus
  the number of erasures of the line, counted without bound. When the bytes hold a
  carriage return the read ends there: the bytes after it stay pending and the last write
  is newline, carriage return, with the echo on or off. Without a carriage return the
  read ends at the failing \<^verbatim>\<open>Read\<close>. With the echo off nothing else is written.
\<close>

theorem readN_count:
  assumes "readN s l onlyIn wr = ((res, n), s')"
    and "tally (unat l) onlyIn (pending s) 0 0 = (a, e)"
  shows "n \<le> l \<and> e \<le> a \<and> unat n = a - e
    \<and> (CR \<in> set (pending s) \<longrightarrow>
          pending s' = tl (dropWhile (\<lambda>b. b \<noteq> CR) (pending s))
          \<and> (\<exists>echo. written s' = written s @ echo @ [[LF, CR]]))
    \<and> (CR \<notin> set (pending s) \<longrightarrow> pending s' = [])
    \<and> (\<not> wr \<longrightarrow> written s' = written s @ (if CR \<in> set (pending s) then [[LF, CR]] else []))"
proof -
  obtain bs' out' where
    run: "readN_loop l onlyIn wr (pending s) (replicate (unat l) NUL) 0 (written s) = (res, n, bs', out')"
    and s': "s' = s\<lparr>pending := bs', written := out'\<rparr>"
    using assms(1) by (auto simp: readN_def split: prod.splits)
  have "n \<le> l"
    using readN_loop_inv [OF _ _ _ run] by simp
  moreover have "e \<le> a \<and> unat n = a - e"
    using readN_loop_tally [OF _ _ run assms(2)] by simp
  moreover have "pending s' = (if CR \<in> set (pending s) then tl (dropWhile (\<lambda>b. b \<noteq> CR) (pending s)) else [])"
    using readN_loop_rest [OF run] s' by simp
  moreover have "CR \<in> set (pending s) \<Longrightarrow> \<exists>echo. written s' = written s @ echo @ [[LF, CR]]"
    using readN_loop_newline [OF run] s' by simp
  moreover have "\<not> wr \<Longrightarrow> written s' = written s @ (if CR \<in> set (pending s) then [[LF, CR]] else [])"
    using readN_loop_silent [of l onlyIn "pending s" _ 0 "written s" res n bs' out'] run s' by simp
  ultimately show ?thesis by simp
qed

theorem readN_count_witness:
  "readN (connect (''ab'' @ [DEL] @ ''c'' @ [CR] @ ''x'')) 2 [] True =
      ((''ac'', 2), \<lparr>pending = ''x'', written = [''a'', ''b'', [BS, SP, BS], ''c'', [LF, CR]], calls = []\<rparr>)
   \<and> tally 2 [] (''ab'' @ [DEL] @ ''c'' @ [CR] @ ''x'') 0 0 = (3, 1)
   \<and> (2::uint) \<le> 2 \<and> (1::nat) \<le> 3 \<and> unat (2::uint) = 3 - 1"
proof -
  have r: "readN (connect (''ab'' @ [DEL] @ ''c'' @ [CR] @ ''x'')) 2 [] True =
      ((''ac'', 2), \<lparr>pending = ''x'', written = [''a'', ''b'', [BS, SP, BS], ''c'', [LF, CR]], calls = []\<rparr>)"
    by code_simp
  have t: "tally (unat (2::uint)) [] (pending (connect (''ab'' @ [DEL] @ ''c'' @ [CR] @ ''x''))) 0 0 = (3, 1)"
    by (simp add: connect_def passes_def)
  show ?thesis
    using readN_count [OF r t] r t by (simp add: connect_def)
qed


text \<open>
  Claim C8. Let the reader have taken the bytes \<open>pre\<close> (none of them a carriage return),
  so that running it on \<open>pre\<close> alone gives the buffer \<open>res\<close> and the count \<open>n\<close>. If
  \<open>n\<close> is zero, a delete byte at this point changes nothing: buffer, count, remaining
  bytes and writes are those of the same input without the delete byte. If \<open>n\<close> is
  positive, the delete byte lowers the count by exactly one (no wrap-around), stores a
  space in the freed slot, which lies inside the buffer, and writes backspace, space,
  backspace when the echo is on.
\<close>

theorem readN_backspace:
  assumes "CR \<notin> set pre"
    and "readN (s\<lparr>pending := pre\<rparr>) l onlyIn wr = ((res, n), s1)"
  shows "(n = 0 \<longrightarrow>
            readN (s\<lparr>pending := pre @ DEL # rest\<rparr>) l onlyIn wr
              = readN (s\<lparr>pending := pre @ rest\<rparr>) l onlyIn wr)
       \<and> (0 < n \<longrightarrow>
            readN (s\<lparr>pending := pre @ [DEL]\<rparr>) l onlyIn wr
              = ((res[unat n - 1 := SP], n - 1),
                 s1\<lparr>written := written s1 @ (if wr then [[BS, SP, BS]] else [])\<rparr>)
            \<and> unat (n - 1) = unat n - 1 \<and> unat n - 1 < length res)"
proof -
  obtain bs1 out1 where
    run: "readN_loop l onlyIn wr pre (replicate (unat l) NUL) 0 (written s) = (res, n, bs1, out1)"
    and s1: "s1 = s\<lparr>pending := bs1, written := out1\<rparr>"
    using assms(2) by (auto simp: readN_def split: prod.splits)
  have bs1: "bs1 = []" using readN_loop_rest [OF run] assms(1) by simp
  have inv: "length res = unat l \<and> n \<le> l" using readN_loop_inv [OF _ _ _ run] by simp
  have zero: "readN (s\<lparr>pending := pre @ DEL # rest\<rparr>) l onlyIn wr
              = readN (s\<lparr>pending := pre @ rest\<rparr>) l onlyIn wr" if "n = 0"
    using that run by (simp add: readN_def readN_loop_append [OF assms(1)])
  have pos: "readN (s\<lparr>pending := pre @ [DEL]\<rparr>) l onlyIn wr
              = ((res[unat n - 1 := SP], n - 1),
                 s1\<lparr>written := written s1 @ (if wr then [[BS, SP, BS]] else [])\<rparr>)
            \<and> unat (n - 1) = unat n - 1 \<and> unat n - 1 < length res" if "0 < n"
  proof -
    have d: "unat (n - 1) = unat n - 1" using that by (rule uint_dec)
    have "0 < unat n" using that by (simp add: uint_pos_iff)
    moreover have "unat n \<le> unat l" using inv by (simp add: word_le_nat_alt)
    ultimately have r: "unat n - 1 < length res" using inv by simp
    show ?thesis
      using that run d r s1 bs1 by (simp add: readN_def readN_loop_append [OF assms(1)])
  qed
  show ?thesis using zero pos by blast
qed


theorem readN_backspace_witness:
  "readN (connect ([DEL] @ ''a'')) 2 [] True = readN (connect ''a'') 2 [] True
   \<and> readN (connect (''ab'' @ [DEL])) 2 [] True
       = ((''a '', 1), \<lparr>pending = [], written = [''a'', ''b'', [BS, SP, BS]], calls = []\<rparr>)"
proof -
  have r0: "readN ((connect [])\<lparr>pending := []\<rparr>) 2 [] True = ((replicate 2 NUL, 0), connect [])"
    by code_simp
  have r1: "readN ((connect [])\<lparr>pending := ''ab''\<rparr>) 2 [] True
      = ((''ab'', 2), \<lparr>pending = [], written = [''a'', ''b''], calls = []\<rparr>)"
    by code_simp
  have c0: "CR \<notin> set []" by simp
  have c1: "CR \<notin> set ''ab''" by simp
  show ?thesis
    using readN_backspace [OF c0 r0, of "''a''"] readN_backspace [OF c1 r1]
    by (simp add: connect_def)
qed

text \<open>
  Claim C10. The buffer the reader returns always has the requested length \<open>l\<close>; every
  position from the returned count on holds the zero byte or a space. The count alone
  tells a short line from a full one: with \<open>l = 2\<close> the line \<open>a, space\<close> and the line
  \<open>a, b, delete\<close> give the same buffer with the counts 2 and 1.
\<close>

theorem readN_buffer:
  assumes "readN s l onlyIn wr = ((res, n), s')"
  shows "length res = unat l
     \<and> (\<forall>k. unat n \<le> k \<and> k < unat l \<longrightarrow> res ! k = NUL \<or> res ! k = SP)
     \<and> fst (readN (connect (''a '' @ [CR])) 2 [] False) = (''a '', 2)
     \<and> fst (readN (connect (''ab'' @ [DEL, CR])) 2 [] False) = (''a '', 1)"
proof -
  obtain bs' out' where
    run: "readN_loop l onlyIn wr (pending s) (replicate (unat l) NUL) 0 (written s) = (res, n, bs', out')"
    using assms(1) by (auto simp: readN_def split: prod.splits)
  have "length res = unat l \<and> (\<forall>k. unat n \<le> k \<and> k < unat l \<longrightarrow> res ! k = NUL \<or> res ! k = SP)"
    using readN_loop_inv [OF _ _ _ run] by simp
  moreover have "fst (readN (connect (''a '' @ [CR])) 2 [] False) = (''a '', 2)"
    by code_simp
  moreover have "fst (readN (connect (''ab'' @ [DEL, CR])) 2 [] False) = (''a '', 1)"
    by code_simp
  ultimately show ?thesis by simp
qed


theorem readN_buffer_witness:
  "readN (connect (''ab'' @ [DEL, CR])) 2 [] False
     = ((''a '', 1), \<lparr>pending = [], written = [[LF, CR]], calls = []\<rparr>)
   \<and> length ''a '' = unat (2::uint) \<and> ''a '' ! 1 = SP"
proof -
  have r: "readN (connect (''ab'' @ [DEL, CR])) 2 [] False
      = ((''a '', 1), \<lparr>pending = [], written = [[LF, CR]], calls = []\<rparr>)"
    by code_simp
  show ?thesis
    using readN_buffer [OF r] r by simp
qed

section \<open>Token verification\<close>

lemma tokenLoop_match:
  "token_attempt cfg token s = (True, s1) \<Longrightarrow> tokenLoop cfg token i s = (True, s1)"
  by (subst tokenLoop.simps) (auto simp: token_attempt_def split: prod.splits)

lemma tokenLoop_last:
  "token_attempt cfg token s = (False, s1) \<Longrightarrow>
     tokenLoop cfg token 1 s = (False, writeString TOKEN_FAILED s1)"
  by (subst tokenLoop.simps) (auto simp: token_attempt_def split: prod.splits)

lemma tokenLoop_retry:
  "token_attempt cfg token s = (False, s1) \<Longrightarrow> i - 1 \<noteq> 0 \<Longrightarrow>
     tokenLoop cfg token i s = tokenLoop cfg token (i - 1) (writeString (TOKEN_RETRY (i - 1)) s1)"
  by (subst tokenLoop.simps) (auto simp: token_attempt_def split: prod.splits)

lemma tokenLoop_unfolded:
  "tokenLoop cfg token 3 s =
     (case token_attempt cfg token s of
        (True, s1) \<Rightarrow> (True, s1)
      | (False, s1) \<Rightarrow>
          (case token_attempt cfg token (writeString (TOKEN_RETRY 2) s1) of
             (True, s2) \<Rightarrow> (True, s2)
           | (False, s2) \<Rightarrow>
               (case token_attempt cfg token (writeString (TOKEN_RETRY 1) s2) of
                  (True, s3) \<Rightarrow> (True, s3)
                | (False, s3) \<Rightarrow> (False, writeString TOKEN_FAILED s3))))"
proof -
  obtain m1 s1 where a1: "token_attempt cfg token s = (m1, s1)" by fastforce
  obtain m2 s2 where a2: "token_attempt cfg token (writeString (TOKEN_RETRY 2) s1) = (m2, s2)"
    by fastforce
  obtain m3 s3 where a3: "token_attempt cfg token (writeString (TOKEN_RETRY 1) s2) = (m3, s3)"
    by fastforce
  show ?thesis
  proof (cases m1)
    case True
    then show ?thesis using a1 tokenLoop_match [of cfg token s s1 3] by simp
  next
    case f1: False
    have l1: "tokenLoop cfg token 3 s = tokenLoop cfg token 2 (writeString (TOKEN_RETRY 2) s1)"
      using tokenLoop_retry [of cfg token s s1 3] a1 f1 by simp
    show ?thesis
    proof (cases m2)
      case True
      then show ?thesis using a1 a2 f1 l1 tokenLoop_match [of cfg token _ s2 2] by simp
    next
      case f2: False
      have l2: "tokenLoop cfg token 2 (writeString (TOKEN_RETRY 2) s1)
          = tokenLoop cfg token 1 (writeString (TOKEN_RETRY 1) s2)"
        using tokenLoop_retry [of cfg token _ s2 2] a2 f2 by simp
      show ?thesis
      proof (cases m3)
        case True
        then show ?thesis
          using a1 a2 a3 f1 f2 l1 l2 tokenLoop_match [of cfg token _ s3 1] by simp
      next
        case False
        then show ?thesis
          using a1 a2 a3 f1 f2 l1 l2 tokenLoop_last [of cfg token _ s3] by simp
      qed
    qed
  qed
qed

text \<open>
  Claim C4. Take a session in which the peer consents and the mail is sent. The handler
  then verifies the token issued for the session, \<open>randomString env TokenLength\<close>, with
  its counter started at 3 (line 257), and the whole session is this: each attempt
  prompts, reads \<open>TokenLength\<close> bytes with echo and compares count and bytes with the
  token, a short read being a mismatch; a match at the first, second or third attempt
  goes on to the directory part; the first mismatch writes the retry message with 2,
  the second the retry message with 1, and the third writes the exhausted message and
  ends the session with no further attempt.
\<close>

theorem handler_token_three:
  assumes "readN (writeString (WELCOME_BODY (user @ ToSuffix cfg)) s) 1 [CHR ''y'', CHR ''n''] True
      = ((buf, n), s1)"
    and "\<not> n < 1" and "buf ! 0 = CHR ''y''"
    and "\<not> sendmail_err env (user @ ToSuffix cfg) (randomString env (TokenLength cfg))"
  shows "(let mail = user @ ToSuffix cfg; token = randomString env (TokenLength cfg) in
      handler cfg env user s =
        (case token_attempt cfg token (invoke (SendMail mail token) s1) of
           (True, t1) \<Rightarrow> directoryFlow cfg env user mail t1
         | (False, t1) \<Rightarrow>
             (case token_attempt cfg token (writeString (TOKEN_RETRY 2) t1) of
                (True, t2) \<Rightarrow> directoryFlow cfg env user mail t2
              | (False, t2) \<Rightarrow>
                  (case token_attempt cfg token (writeString (TOKEN_RETRY 1) t2) of
                     (True, t3) \<Rightarrow> directoryFlow cfg env user mail t3
                   | (False, t3) \<Rightarrow> (TokenFailed, writeString TOKEN_FAILED t3)))))
   \<and> TOKEN_RETRY 2 = ''Invalid token. Please, try again (you have 2 more retries)'' @ [LF]
   \<and> TOKEN_RETRY 1 = ''Invalid token. Please, try again (you have 1 more retries)'' @ [LF]
   \<and> TOKEN_FAILED = ''Invalid token. Verification failed.'' @ [LF]
   \<and> (\<forall>token t bytes read t1.
         readN (writeString TOKEN_BODY t) (TokenLength cfg) [] True = ((bytes, read), t1)
         \<longrightarrow> token_attempt cfg token t = (read = TokenLength cfg \<and> bytes = token, t1))"
proof -
  let ?mail = "user @ ToSuffix cfg"
  let ?token = "randomString env (TokenLength cfg)"
  have h: "handler cfg env user s =
      (case tokenLoop cfg ?token 3 (invoke (SendMail ?mail ?token) s1) of
         (False, s3) \<Rightarrow> (TokenFailed, s3)
       | (True, s3) \<Rightarrow> directoryFlow cfg env user ?mail s3)"
    using assms by (simp add: handler_def Let_def sendmail_def)
  have "handler cfg env user s =
        (case token_attempt cfg ?token (invoke (SendMail ?mail ?token) s1) of
           (True, t1) \<Rightarrow> directoryFlow cfg env user ?mail t1
         | (False, t1) \<Rightarrow>
             (case token_attempt cfg ?token (writeString (TOKEN_RETRY 2) t1) of
                (True, t2) \<Rightarrow> directoryFlow cfg env user ?mail t2
              | (False, t2) \<Rightarrow>
                  (case token_attempt cfg ?token (writeString (TOKEN_RETRY 1) t2) of
                     (True, t3) \<Rightarrow> directoryFlow cfg env user ?mail t3
                   | (False, t3) \<Rightarrow> (TokenFailed, writeString TOKEN_FAILED t3))))"
    unfolding h tokenLoop_unfolded by (simp split: prod.splits bool.splits)
  then show ?thesis
    by (simp add: Let_def TOKEN_RETRY_def format_int_def TOKEN_FAILED_def token_attempt_def)
qed

theorem handler_token_three_witness:
  "fst (handler example_options example_collaborators ''alice''
          (connect (''y'' @ [CR] @ ''abcdeX'' @ [CR] @ ''abc'' @ [CR] @ ''zzzzzz'' @ [CR]
                    @ ''abcdef'' @ [CR]))) = TokenFailed
   \<and> filter (\<lambda>m. 3 < length m)
        (written (snd (handler example_options example_collaborators ''alice''
          (connect (''y'' @ [CR] @ ''abcdeX'' @ [CR] @ ''abc'' @ [CR] @ ''zzzzzz'' @ [CR]
                    @ ''abcdef'' @ [CR])))))
       = [WELCOME_BODY ''alice@localhost'', TOKEN_BODY, TOKEN_RETRY 2, TOKEN_BODY,
          TOKEN_RETRY 1, TOKEN_BODY, TOKEN_FAILED]
   \<and> pending (snd (handler example_options example_collaborators ''alice''
          (connect (''y'' @ [CR] @ ''abcdeX'' @ [CR] @ ''abc'' @ [CR] @ ''zzzzzz'' @ [CR]
                    @ ''abcdef'' @ [CR])))) = ''abcdef'' @ [CR]"
proof -
  let ?s = "connect (''y'' @ [CR] @ ''abcdeX'' @ [CR] @ ''abc'' @ [CR] @ ''zzzzzz'' @ [CR]
                    @ ''abcdef'' @ [CR])"
  let ?r = "readN (writeString (WELCOME_BODY (''alice'' @ ToSuffix example_options)) ?s) 1
              [CHR ''y'', CHR ''n''] True"
  have r: "?r = ((fst (fst ?r), snd (fst ?r)), snd ?r)"
    by simp
  have n: "\<not> snd (fst ?r) < 1"
    by code_simp
  have y: "fst (fst ?r) ! 0 = CHR ''y''"
    by code_simp
  have m: "\<not> sendmail_err example_collaborators (''alice'' @ ToSuffix example_options)
      (randomString example_collaborators (TokenLength example_options))"
    by (simp add: example_collaborators_def)
  note u = handler_token_three [OF r n y m, unfolded Let_def, THEN conjunct1]
  show ?thesis
    unfolding u by code_simp
qed

section \<open>Password collection\<close>

lemma sint_small: "k \<le> 3 \<Longrightarrow> sint (of_nat k :: int64) = int k"
proof -
  assume "k \<le> 3"
  then consider "k = 0" | "k = 1" | "k = 2" | "k = 3" by linarith
  then show ?thesis by cases simp_all
qed

lemma readN_calls: "readN s l f w = (r, s1) \<Longrightarrow> calls s1 = calls s"
  by (auto simp: readN_def split: prod.splits)

lemma readPassword_effect:
  assumes "readPassword cfg s = ((ok, ans), s1)"
  shows "calls s1 = calls s
    \<and> (written s1 = written s \<or> written s1 = written s @ [[LF, CR]])
    \<and> (\<not> ok \<longrightarrow> ans = ''Password is too short''
                  \<or> ans = ''Password does not comply with the rules'')"
proof -
  obtain buf n s0 where r: "readN s (PasswordMax cfg) letters False = ((buf, n), s0)"
    by (metis surj_pair)
  then have s1: "s1 = s0" using assms by (auto simp: readPassword_def split: if_splits)
  obtain bs' out' where
    run: "readN_loop (PasswordMax cfg) letters False (pending s)
            (replicate (unat (PasswordMax cfg)) NUL) 0 (written s) = (buf, n, bs', out')"
    and s0: "s0 = s\<lparr>pending := bs', written := out'\<rparr>"
    using r by (auto simp: readN_def split: prod.splits)
  have "out' = written s @ (if CR \<in> set (pending s) then [[LF, CR]] else [])"
    by (rule readN_loop_silent [OF run])
  then have "written s1 = written s \<or> written s1 = written s @ [[LF, CR]]"
    using s0 s1 by simp
  moreover have "calls s1 = calls s" using s0 s1 by simp
  moreover have "\<not> ok \<longrightarrow> ans = ''Password is too short''
                  \<or> ans = ''Password does not comply with the rules''"
    using assms r by (auto simp: readPassword_def split: if_splits)
  ultimately show ?thesis by blast
qed

lemma passwordLoop_step:
  assumes "readPassword cfg (writeString ''Password: '' s) = ((ok, ans), s1)"
  shows "(ok \<longrightarrow> passwordLoop cfg i s = (Some (ans, i - 1), s1))
    \<and> (\<not> ok \<and> sint (i - 1) \<le> 0 \<longrightarrow>
          passwordLoop cfg i s = (None, writeString PASSWORD_FAILED (writeString (ans @ [LF]) s1)))
    \<and> (\<not> ok \<and> 0 < sint (i - 1) \<longrightarrow>
          passwordLoop cfg i s = passwordLoop cfg (i - 1) (writeString (ans @ [LF]) s1))"
  by (subst passwordLoop.simps, subst (2) passwordLoop.simps, subst (3) passwordLoop.simps)
    (use assms in auto)


lemma repeatLoop_step:
  assumes "readPassword cfg (writeString ''Repeat your password: '' s) = ((ok, ans), s1)"
  shows "(ok \<and> ans = passwd \<longrightarrow> repeatLoop cfg passwd i s = (True, s1))
    \<and> (\<not> (ok \<and> ans = passwd) \<and> sint (i - 1) \<le> 0 \<longrightarrow>
          repeatLoop cfg passwd i s
            = (False, writeString PASSWORD_FAILED
                 (writeString ((if ok then ''Passwords don'' @ [CHR 0x27] @ ''t match'' else ans)
                    @ [LF]) s1)))
    \<and> (\<not> (ok \<and> ans = passwd) \<and> 0 < sint (i - 1) \<longrightarrow>
          repeatLoop cfg passwd i s
            = repeatLoop cfg passwd (i - 1)
                (writeString ((if ok then ''Passwords don'' @ [CHR 0x27] @ ''t match'' else ans)
                    @ [LF]) s1))"
  by (subst repeatLoop.simps, subst (2) repeatLoop.simps, subst (3) repeatLoop.simps)
    (use assms in auto)

lemma prompts_append [simp]:
  "password_prompts (xs @ ys) = password_prompts xs + password_prompts ys"
  by (simp add: password_prompts_def)

lemma rejections_append [simp]:
  "password_rejections (xs @ ys) = password_rejections xs + password_rejections ys"
  by (simp add: password_rejections_def)

lemma prompts_Nil [simp]: "password_prompts [] = 0"
  by (simp add: password_prompts_def)

lemma rejections_Nil [simp]: "password_rejections [] = 0"
  by (simp add: password_rejections_def)

lemma prompts_Cons [simp]:
  "password_prompts (m # ms) =
     (if m = ''Password: '' \<or> m = ''Repeat your password: '' then 1 else 0)
       + password_prompts ms"
  by (simp add: password_prompts_def)

lemma rejections_Cons [simp]:
  "password_rejections (m # ms) =
     (if m = ''Password is too short'' @ [LF]
        \<or> m = ''Password does not comply with the rules'' @ [LF]
        \<or> m = ''Passwords don'' @ [CHR 0x27] @ ''t match'' @ [LF] then 1 else 0)
       + password_rejections ms"
  by (simp add: password_rejections_def)

lemma attempt_written:
  assumes "readPassword cfg (writeString prompt s) = ((ok, ans), s1)"
  shows "\<exists>nl. written s1 = written s @ [prompt] @ nl \<and> calls s1 = calls s
     \<and> password_prompts nl = 0 \<and> password_rejections nl = 0 \<and> PASSWORD_FAILED \<notin> set nl"
proof -
  from readPassword_effect [OF assms]
  have c: "calls s1 = calls s"
    and w: "written s1 = written s @ [prompt] \<or> written s1 = written s @ [prompt] @ [[LF, CR]]"
    by (auto simp: writeString_def)
  from w show ?thesis
  proof
    assume "written s1 = written s @ [prompt]"
    then have "written s1 = written s @ [prompt] @ [] \<and> calls s1 = calls s
     \<and> password_prompts [] = 0 \<and> password_rejections [] = 0 \<and> PASSWORD_FAILED \<notin> set []"
      using c by simp
    then show ?thesis by blast
  next
    assume "written s1 = written s @ [prompt] @ [[LF, CR]]"
    then have "written s1 = written s @ [prompt] @ [[LF, CR]] \<and> calls s1 = calls s
     \<and> password_prompts [[LF, CR]] = 0 \<and> password_rejections [[LF, CR]] = 0
     \<and> PASSWORD_FAILED \<notin> set [[LF, CR]]"
      using c by (simp add: PASSWORD_FAILED_def)
    then show ?thesis by blast
  qed
qed

lemma passwordLoop_counts:
  assumes "1 \<le> k" "k \<le> 3" "passwordLoop cfg (of_nat k) s = (r, s')"
  shows "\<exists>new. written s' = written s @ new \<and> calls s' = calls s
    \<and> (r = None \<longrightarrow> password_prompts new = k \<and> password_rejections new = k
          \<and> new \<noteq> [] \<and> last new = PASSWORD_FAILED)
    \<and> (\<forall>p j. r = Some (p, j) \<longrightarrow> PASSWORD_FAILED \<notin> set new
          \<and> 1 \<le> password_prompts new \<and> password_prompts new \<le> k
          \<and> j = of_nat (k - password_prompts new)
          \<and> password_rejections new + 1 = password_prompts new)"
  using assms
proof (induction k arbitrary: s)
  case 0
  then show ?case by simp
next
  case (Suc k)
  obtain ok ans s1 where a: "readPassword cfg (writeString ''Password: '' s) = ((ok, ans), s1)"
    by (metis surj_pair)
  from attempt_written [OF a] obtain nl where
    w1: "written s1 = written s @ [''Password: ''] @ nl" and c1: "calls s1 = calls s"
    and n0: "password_prompts nl = 0" "password_rejections nl = 0" "PASSWORD_FAILED \<notin> set nl"
    by blast
  have dec: "(of_nat (Suc k) :: int64) - 1 = of_nat k" by simp
  have sg: "sint (of_nat k :: int64) = int k" using Suc.prems(2) by (simp add: sint_small)
  note step = passwordLoop_step [OF a, of "of_nat (Suc k)", unfolded dec sg]
  have pf: "PASSWORD_FAILED \<noteq> ''Password: ''" by (simp add: PASSWORD_FAILED_def)
  show ?case
  proof (cases ok)
    case True
    then have r: "r = Some (ans, of_nat k)" and s': "s' = s1"
      using step Suc.prems(3) by auto
    define new where "new = [''Password: ''] @ nl"
    have "written s' = written s @ new" using w1 s' by (simp add: new_def)
    moreover have "password_prompts new = 1" "password_rejections new = 0"
      "PASSWORD_FAILED \<notin> set new"
      using n0 pf by (auto simp: new_def)
    ultimately show ?thesis using r s' c1 by (intro exI [of _ new]) simp
  next
    case False
    then have msg: "ans = ''Password is too short''
        \<or> ans = ''Password does not comply with the rules''"
      using readPassword_effect [OF a] by blast
    then have m1: "password_prompts [ans @ [LF]] = 0" "password_rejections [ans @ [LF]] = 1"
      "PASSWORD_FAILED \<noteq> ans @ [LF]"
      by (auto simp: PASSWORD_FAILED_def)
    show ?thesis
    proof (cases "k = 0")
      case True
      then have r: "r = None"
        and s': "s' = writeString PASSWORD_FAILED (writeString (ans @ [LF]) s1)"
        using step False Suc.prems(3) by auto
      define new where "new = [''Password: ''] @ nl @ [ans @ [LF]] @ [PASSWORD_FAILED]"
      have "written s' = written s @ new" using w1 s' by (simp add: writeString_def new_def)
      moreover have "calls s' = calls s" using c1 s' by (simp add: writeString_def)
      moreover have "password_prompts new = password_prompts [ans @ [LF]] + 1"
        "password_rejections new = password_rejections [ans @ [LF]]"
        using n0 by (simp_all add: new_def PASSWORD_FAILED_def)
      moreover have "new \<noteq> []" "last new = PASSWORD_FAILED" by (simp_all add: new_def)
      ultimately show ?thesis using r m1 True by (intro exI [of _ new]) simp
    next
      case nz: False
      then have rec: "passwordLoop cfg (of_nat k) (writeString (ans @ [LF]) s1) = (r, s')"
        using step False Suc.prems(3) by auto
      from Suc.IH [OF _ _ rec] nz Suc.prems(2) obtain new' where
        w': "written s' = written (writeString (ans @ [LF]) s1) @ new'"
        and c': "calls s' = calls (writeString (ans @ [LF]) s1)"
        and none: "r = None \<longrightarrow> password_prompts new' = k \<and> password_rejections new' = k
          \<and> new' \<noteq> [] \<and> last new' = PASSWORD_FAILED"
        and some: "\<forall>p j. r = Some (p, j) \<longrightarrow> PASSWORD_FAILED \<notin> set new'
          \<and> 1 \<le> password_prompts new' \<and> password_prompts new' \<le> k
          \<and> j = of_nat (k - password_prompts new')
          \<and> password_rejections new' + 1 = password_prompts new'"
        by auto
      define new where "new = [''Password: ''] @ nl @ [ans @ [LF]] @ new'"
      have "written s' = written s @ new" using w1 w' by (simp add: writeString_def new_def)
      moreover have "calls s' = calls s" using c1 c' by (simp add: writeString_def)
      moreover have "password_prompts new = password_prompts [ans @ [LF]] + Suc (password_prompts new')"
        "password_rejections new = password_rejections [ans @ [LF]] + password_rejections new'"
        using n0 by (simp_all add: new_def)
      moreover have "PASSWORD_FAILED \<in> set new \<longleftrightarrow> PASSWORD_FAILED \<in> set new'"
        using n0 m1 pf by (auto simp: new_def)
      moreover have "new' \<noteq> [] \<Longrightarrow> last new = last new' \<and> new \<noteq> []"
        by (simp add: new_def)
      ultimately show ?thesis using none some m1
        by (intro exI [of _ new]) auto
    qed
  qed
qed


lemma repeatLoop_counts:
  assumes "m \<le> 3" "repeatLoop cfg passwd (of_nat m) s = (ok, s')"
  shows "\<exists>new. written s' = written s @ new \<and> calls s' = calls s
    \<and> 1 \<le> password_prompts new \<and> password_prompts new \<le> max 1 m
    \<and> (ok \<longrightarrow> PASSWORD_FAILED \<notin> set new
          \<and> password_rejections new + 1 = password_prompts new)
    \<and> (\<not> ok \<longrightarrow> new \<noteq> [] \<and> last new = PASSWORD_FAILED
          \<and> password_prompts new = max 1 m
          \<and> password_rejections new = password_prompts new)"
  using assms
proof (induction m arbitrary: s)
  case 0
  obtain rok ans s1 where
    a: "readPassword cfg (writeString ''Repeat your password: '' s) = ((rok, ans), s1)"
    by (metis surj_pair)
  from attempt_written [OF a] obtain nl where
    w1: "written s1 = written s @ [''Repeat your password: ''] @ nl" and c1: "calls s1 = calls s"
    and n0: "password_prompts nl = 0" "password_rejections nl = 0" "PASSWORD_FAILED \<notin> set nl"
    by blast
  note step = repeatLoop_step [OF a, of passwd 0]
  have pf: "PASSWORD_FAILED \<noteq> ''Repeat your password: ''" by (simp add: PASSWORD_FAILED_def)
  show ?case
  proof (cases "rok \<and> ans = passwd")
    case True
    then have r: "ok" and s': "s' = s1"
      using step "0.prems"(2) by auto
    define new where "new = [''Repeat your password: ''] @ nl"
    have "written s' = written s @ new" using w1 s' by (simp add: new_def)
    moreover have "password_prompts new = 1" "password_rejections new = 0"
      "PASSWORD_FAILED \<notin> set new"
      using n0 pf by (auto simp: new_def)
    ultimately show ?thesis using r s' c1 by (intro exI [of _ new]) simp
  next
    case False
    define msg where
      "msg = (if rok then ''Passwords don'' @ [CHR 0x27] @ ''t match'' else ans) @ [LF]"
    have "\<not> rok \<longrightarrow> ans = ''Password is too short''
        \<or> ans = ''Password does not comply with the rules''"
      using readPassword_effect [OF a] by blast
    then have m1: "password_prompts [msg] = 0" "password_rejections [msg] = 1"
      "PASSWORD_FAILED \<noteq> msg"
      by (auto simp: PASSWORD_FAILED_def msg_def)
    have r: "\<not> ok" and s': "s' = writeString PASSWORD_FAILED (writeString msg s1)"
      using step False "0.prems"(2) by (auto simp: msg_def)
    define new where "new = [''Repeat your password: ''] @ nl @ [msg] @ [PASSWORD_FAILED]"
    have "written s' = written s @ new" using w1 s' by (simp add: writeString_def new_def)
    moreover have "calls s' = calls s" using c1 s' by (simp add: writeString_def)
    moreover have "password_prompts new = password_prompts [msg] + 1"
      "password_rejections new = password_rejections [msg]"
      using n0 by (simp_all add: new_def PASSWORD_FAILED_def)
    moreover have "new \<noteq> []" "last new = PASSWORD_FAILED" by (simp_all add: new_def)
    ultimately show ?thesis using r m1 by (intro exI [of _ new]) simp
  qed
next
  case (Suc m)
  obtain rok ans s1 where
    a: "readPassword cfg (writeString ''Repeat your password: '' s) = ((rok, ans), s1)"
    by (metis surj_pair)
  from attempt_written [OF a] obtain nl where
    w1: "written s1 = written s @ [''Repeat your password: ''] @ nl" and c1: "calls s1 = calls s"
    and n0: "password_prompts nl = 0" "password_rejections nl = 0" "PASSWORD_FAILED \<notin> set nl"
    by blast
  have dec: "(of_nat (Suc m) :: int64) - 1 = of_nat m" by simp
  have sg: "sint (of_nat m :: int64) = int m" using Suc.prems(1) by (simp add: sint_small)
  note step = repeatLoop_step [OF a, of passwd "of_nat (Suc m)", unfolded dec sg]
  have pf: "PASSWORD_FAILED \<noteq> ''Repeat your password: ''" by (simp add: PASSWORD_FAILED_def)
  show ?case
  proof (cases "rok \<and> ans = passwd")
    case True
    then have r: "ok" and s': "s' = s1"
      using step Suc.prems(2) by auto
    define new where "new = [''Repeat your password: ''] @ nl"
    have "written s' = written s @ new" using w1 s' by (simp add: new_def)
    moreover have "password_prompts new = 1" "password_rejections new = 0"
      "PASSWORD_FAILED \<notin> set new"
      using n0 pf by (auto simp: new_def)
    ultimately show ?thesis using r s' c1 by (intro exI [of _ new]) simp
  next
    case False
    define msg where
      "msg = (if rok then ''Passwords don'' @ [CHR 0x27] @ ''t match'' else ans) @ [LF]"
    have "\<not> rok \<longrightarrow> ans = ''Password is too short''
        \<or> ans = ''Password does not comply with the rules''"
      using readPassword_effect [OF a] by blast
    then have m1: "password_prompts [msg] = 0" "password_rejections [msg] = 1"
      "PASSWORD_FAILED \<noteq> msg"
      by (auto simp: PASSWORD_FAILED_def msg_def)
    show ?thesis
    proof (cases "m = 0")
      case True
      then have r: "\<not> ok" and s': "s' = writeString PASSWORD_FAILED (writeString msg s1)"
        using step False Suc.prems(2) by (auto simp: msg_def)
      define new where "new = [''Repeat your password: ''] @ nl @ [msg] @ [PASSWORD_FAILED]"
      have "written s' = written s @ new" using w1 s' by (simp add: writeString_def new_def)
      moreover have "calls s' = calls s" using c1 s' by (simp add: writeString_def)
      moreover have "password_prompts new = password_prompts [msg] + 1"
        "password_rejections new = password_rejections [msg]"
        using n0 by (simp_all add: new_def PASSWORD_FAILED_def)
      moreover have "new \<noteq> []" "last new = PASSWORD_FAILED" by (simp_all add: new_def)
      ultimately show ?thesis using r m1 True by (intro exI [of _ new]) simp
    next
      case nz: False
      then have rec: "repeatLoop cfg passwd (of_nat m) (writeString msg s1) = (ok, s')"
        using step False Suc.prems(2) by (auto simp: msg_def)
      from Suc.IH [OF _ rec] Suc.prems(1) obtain new' where
        w': "written s' = written (writeString msg s1) @ new'"
        and c': "calls s' = calls (writeString msg s1)"
        and b: "1 \<le> password_prompts new'" "password_prompts new' \<le> max 1 m"
        and yes: "ok \<longrightarrow> PASSWORD_FAILED \<notin> set new'
          \<and> password_rejections new' + 1 = password_prompts new'"
        and no: "\<not> ok \<longrightarrow> new' \<noteq> [] \<and> last new' = PASSWORD_FAILED
          \<and> password_prompts new' = max 1 m
          \<and> password_rejections new' = password_prompts new'"
        by auto
      define new where "new = [''Repeat your password: ''] @ nl @ [msg] @ new'"
      have "written s' = written s @ new" using w1 w' by (simp add: writeString_def new_def)
      moreover have "calls s' = calls s" using c1 c' by (simp add: writeString_def)
      moreover have "password_prompts new = password_prompts [msg] + Suc (password_prompts new')"
        "password_rejections new = password_rejections [msg] + password_rejections new'"
        using n0 by (simp_all add: new_def)
      moreover have "PASSWORD_FAILED \<in> set new \<longleftrightarrow> PASSWORD_FAILED \<in> set new'"
        using n0 m1 pf by (auto simp: new_def)
      moreover have "new' \<noteq> [] \<Longrightarrow> last new = last new' \<and> new \<noteq> []"
        by (simp add: new_def)
      ultimately show ?thesis using b yes no m1 nz
        by (intro exI [of _ new]) auto
    qed
  qed
qed

lemma repeat_as_attempt_4:
  "(case repeatLoop cfg p 0 s of (ok, s') \<Rightarrow> (if ok then Some p else None, s'))
     = confirm_by_attempts cfg p 4 s"
proof -
  obtain ok q s1 where
    a: "readPassword cfg (writeString ''Repeat your password: '' s) = ((ok, q), s1)"
    by (metis surj_pair)
  show ?thesis
    using repeatLoop_step [OF a, of p 0] a
    by (subst confirm_by_attempts.simps) auto
qed

lemma repeat_as_attempt_3:
  "(case repeatLoop cfg p 1 s of (ok, s') \<Rightarrow> (if ok then Some p else None, s'))
     = confirm_by_attempts cfg p 3 s"
proof -
  obtain ok q s1 where
    a: "readPassword cfg (writeString ''Repeat your password: '' s) = ((ok, q), s1)"
    by (metis surj_pair)
  show ?thesis
    using repeatLoop_step [OF a, of p 1] a
    by (subst confirm_by_attempts.simps) auto
qed

lemma repeat_as_attempt_2:
  "(case repeatLoop cfg p 2 s of (ok, s') \<Rightarrow> (if ok then Some p else None, s'))
     = confirm_by_attempts cfg p 2 s"
proof -
  obtain ok q s1 where
    a: "readPassword cfg (writeString ''Repeat your password: '' s) = ((ok, q), s1)"
    by (metis surj_pair)
  have n: "Suc 2 = 3" by simp
  show ?thesis
    using repeatLoop_step [OF a, of p 2] a
    by (subst confirm_by_attempts.simps) (auto simp: n repeat_as_attempt_3 [symmetric])
qed

lemma first_as_attempt_3:
  "(case passwordLoop cfg 1 s of
      (None, s1) \<Rightarrow> (None, s1)
    | (Some (p, j), s1) \<Rightarrow>
        (case repeatLoop cfg p j s1 of (ok, s2) \<Rightarrow> (if ok then Some p else None, s2)))
     = collect_by_attempts cfg 3 s"
proof -
  obtain ok q s1 where
    a: "readPassword cfg (writeString ''Password: '' s) = ((ok, q), s1)"
    by (metis surj_pair)
  have n: "Suc 3 = 4" by simp
  show ?thesis
    using passwordLoop_step [OF a, of 1] a
    by (subst collect_by_attempts.simps) (auto simp: n repeat_as_attempt_4 [symmetric])
qed

lemma first_as_attempt_2:
  "(case passwordLoop cfg 2 s of
      (None, s1) \<Rightarrow> (None, s1)
    | (Some (p, j), s1) \<Rightarrow>
        (case repeatLoop cfg p j s1 of (ok, s2) \<Rightarrow> (if ok then Some p else None, s2)))
     = collect_by_attempts cfg 2 s"
proof -
  obtain ok q s1 where
    a: "readPassword cfg (writeString ''Password: '' s) = ((ok, q), s1)"
    by (metis surj_pair)
  have n: "Suc 2 = 3" by simp
  show ?thesis
    using passwordLoop_step [OF a, of 2] a
    by (subst collect_by_attempts.simps)
      (auto simp: n repeat_as_attempt_3 [symmetric] first_as_attempt_3 [symmetric])
qed

lemma first_as_attempt_1:
  "(case passwordLoop cfg 3 s of
      (None, s1) \<Rightarrow> (None, s1)
    | (Some (p, j), s1) \<Rightarrow>
        (case repeatLoop cfg p j s1 of (ok, s2) \<Rightarrow> (if ok then Some p else None, s2)))
     = collect_by_attempts cfg 1 s"
proof -
  obtain ok q s1 where
    a: "readPassword cfg (writeString ''Password: '' s) = ((ok, q), s1)"
    by (metis surj_pair)
  have n: "Suc (Suc 0) = 2" by simp
  show ?thesis
    using passwordLoop_step [OF a, of 3] a
    by (subst collect_by_attempts.simps)
      (auto simp: n repeat_as_attempt_2 [symmetric] first_as_attempt_2 [symmetric])
qed

lemma collectConfirmed_by_attempts:
  "collectConfirmed cfg s = collect_by_attempts cfg 1 s"
  unfolding first_as_attempt_1 [symmetric] collectConfirmed_def
  by (auto split: prod.splits option.splits bool.splits)


lemma password_budget_counts:
  assumes "collectConfirmed cfg s = (r, s')"
  shows "\<exists>new. written s' = written s @ new
    \<and> (r = None \<longrightarrow> new \<noteq> [] \<and> last new = PASSWORD_FAILED
          \<and> 3 \<le> password_prompts new \<and> password_prompts new \<le> 4
          \<and> 2 \<le> password_rejections new \<and> password_rejections new \<le> 3
          \<and> password_prompts new \<le> password_rejections new + 1)
    \<and> (r \<noteq> None \<longrightarrow> PASSWORD_FAILED \<notin> set new \<and> password_prompts new \<le> 4
          \<and> password_rejections new + 2 = password_prompts new)
    \<and> (\<forall>p j s1. passwordLoop cfg 3 s = (Some (p, j), s1) \<longrightarrow>
          j = 3 - of_nat (password_prompts (drop (length (written s)) (written s1))))"
proof -
  obtain r1 s1 where l1: "passwordLoop cfg 3 s = (r1, s1)" by (metis surj_pair)
  then have l1': "passwordLoop cfg (of_nat 3) s = (r1, s1)" by simp
  from passwordLoop_counts [OF _ _ l1'] obtain new1 where
    w1: "written s1 = written s @ new1"
    and none: "r1 = None \<longrightarrow> password_prompts new1 = 3 \<and> password_rejections new1 = 3
          \<and> new1 \<noteq> [] \<and> last new1 = PASSWORD_FAILED"
    and some: "\<forall>p j. r1 = Some (p, j) \<longrightarrow> PASSWORD_FAILED \<notin> set new1
          \<and> 1 \<le> password_prompts new1 \<and> password_prompts new1 \<le> 3
          \<and> j = of_nat (3 - password_prompts new1)
          \<and> password_rejections new1 + 1 = password_prompts new1"
    by auto
  have counter: "\<forall>p j s1'. passwordLoop cfg 3 s = (Some (p, j), s1') \<longrightarrow>
          j = 3 - of_nat (password_prompts (drop (length (written s)) (written s1')))"
    using l1 w1 some by auto
  show ?thesis
  proof (cases r1)
    case None
    then have "r = None" "s' = s1" using assms l1 by (simp_all add: collectConfirmed_def)
    then show ?thesis using w1 none None counter by (intro exI [of _ new1]) simp
  next
    case (Some pj)
    obtain p j where pj: "pj = (p, j)" by (metis surj_pair)
    define a where "a = password_prompts new1"
    have f1: "PASSWORD_FAILED \<notin> set new1" "1 \<le> a" "a \<le> 3" "j = of_nat (3 - a)"
      "password_rejections new1 + 1 = a"
      using some Some pj by (simp_all add: a_def)
    obtain ok s2 where l2: "repeatLoop cfg p (of_nat (3 - a)) s1 = (ok, s2)" by (metis surj_pair)
    then have res: "r = (if ok then Some p else None)" "s' = s2"
      using assms l1 Some pj f1(4) by (auto simp: collectConfirmed_def split: bool.splits)
    from repeatLoop_counts [OF _ l2] obtain new2 where
      w2: "written s2 = written s1 @ new2"
      and b: "1 \<le> password_prompts new2" "password_prompts new2 \<le> max 1 (3 - a)"
      and yes: "ok \<longrightarrow> PASSWORD_FAILED \<notin> set new2
          \<and> password_rejections new2 + 1 = password_prompts new2"
      and no: "\<not> ok \<longrightarrow> new2 \<noteq> [] \<and> last new2 = PASSWORD_FAILED
          \<and> password_prompts new2 = max 1 (3 - a)
          \<and> password_rejections new2 = password_prompts new2"
      by auto
    define new where "new = new1 @ new2"
    have w: "written s' = written s @ new" using w1 w2 res by (simp add: new_def)
    have pr: "password_prompts new = a + password_prompts new2"
      "password_rejections new + 1 = a + password_rejections new2"
      using f1(5) by (simp_all add: new_def a_def)
    have no': "3 \<le> password_prompts new \<and> password_prompts new \<le> 4
          \<and> 2 \<le> password_rejections new \<and> password_rejections new \<le> 3
          \<and> password_prompts new \<le> password_rejections new + 1" if "\<not> ok"
    proof -
      have "password_prompts new2 = max 1 (3 - a)"
        "password_rejections new2 = password_prompts new2"
        using no that by simp_all
      then show ?thesis using pr f1(2,3) by arith
    qed
    have yes': "password_prompts new \<le> 4
          \<and> password_rejections new + 2 = password_prompts new" if "ok"
    proof -
      have "password_rejections new2 + 1 = password_prompts new2"
        using yes that by simp
      then show ?thesis using pr b f1(2,3) by arith
    qed
    have fl: "PASSWORD_FAILED \<in> set new \<longleftrightarrow> PASSWORD_FAILED \<in> set new2"
      using f1 by (auto simp: new_def)
    have la: "new2 \<noteq> [] \<Longrightarrow> last new = last new2 \<and> new \<noteq> []"
      by (simp add: new_def)
    show ?thesis
    proof (cases ok)
      case True
      then show ?thesis using w res yes yes' fl counter by (intro exI [of _ new]) simp
    next
      case False
      then show ?thesis using w res no no' la counter by (intro exI [of _ new]) simp
    qed
  qed
qed

text \<open>
  Claim C2, as stated, fails: the counter is decremented on every attempt, also on an
  accepted one. Here the first password is accepted, the two confirmations differ from
  it, and the session ends with the password-failure message after two rejections.
\<close>

theorem password_budget_counterexample:
  "fst (collectConfirmed example_options
          (connect (''Abcdefgh1'' @ [CR] @ ''Abcdefgh2'' @ [CR] @ ''Abcdefgh3'' @ [CR]))) = None
   \<and> last (written (snd (collectConfirmed example_options
          (connect (''Abcdefgh1'' @ [CR] @ ''Abcdefgh2'' @ [CR] @ ''Abcdefgh3'' @ [CR])))))
       = PASSWORD_FAILED
   \<and> password_rejections (written (snd (collectConfirmed example_options
          (connect (''Abcdefgh1'' @ [CR] @ ''Abcdefgh2'' @ [CR] @ ''Abcdefgh3'' @ [CR]))))) = 2
   \<and> password_prompts (written (snd (collectConfirmed example_options
          (connect (''Abcdefgh1'' @ [CR] @ ''Abcdefgh2'' @ [CR] @ ''Abcdefgh3'' @ [CR]))))) = 3"
  by code_simp

text \<open>
  Claim C2, amended. The two loops share one counter that starts at 3 and goes down by
  one at every attempt, accepted or rejected, and the counter is looked at only after a
  rejected attempt. So the collection is the one described by the attempt budget: with
  the attempts numbered from 1 through both phases, a rejected attempt ends the session
  with the password-failure message exactly when it is the third or a later attempt,
  and an accepted attempt never ends it. In particular the collection fails exactly
  when the password-failure message is written, it is then the last write, and this
  happens after 3 or 4 attempts of which 2 or 3 were rejected; a collection that
  succeeds has made at most 4 attempts, exactly 2 of them accepted; and the counter
  handed to the confirmation loop is 3 minus the number of prompts written so far.
\<close>

theorem password_budget:
  assumes "collectConfirmed cfg s = (r, s')"
  shows "collectConfirmed cfg s = collect_by_attempts cfg 1 s
    \<and> (\<exists>new. written s' = written s @ new
    \<and> (r = None \<longrightarrow> new \<noteq> [] \<and> last new = PASSWORD_FAILED
          \<and> 3 \<le> password_prompts new \<and> password_prompts new \<le> 4
          \<and> 2 \<le> password_rejections new \<and> password_rejections new \<le> 3
          \<and> password_prompts new \<le> password_rejections new + 1)
    \<and> (r \<noteq> None \<longrightarrow> PASSWORD_FAILED \<notin> set new \<and> password_prompts new \<le> 4
          \<and> password_rejections new + 2 = password_prompts new)
    \<and> (\<forall>p j s1. passwordLoop cfg 3 s = (Some (p, j), s1) \<longrightarrow>
          j = 3 - of_nat (password_prompts (drop (length (written s)) (written s1)))))"
  using password_budget_counts [OF assms] collectConfirmed_by_attempts [of cfg s]
  by blast

theorem password_budget_witness:
  "fst (collectConfirmed example_options
          (connect (''abc'' @ [CR] @ ''Abcdefgh1'' @ [CR] @ ''Abcdefgh2'' @ [CR]
                    @ ''Abcdefgh1'' @ [CR]))) = None
   \<and> last (written (snd (collectConfirmed example_options
          (connect (''abc'' @ [CR] @ ''Abcdefgh1'' @ [CR] @ ''Abcdefgh2'' @ [CR]
                    @ ''Abcdefgh1'' @ [CR])))))
       = PASSWORD_FAILED
   \<and> password_rejections (written (snd (collectConfirmed example_options
          (connect (''abc'' @ [CR] @ ''Abcdefgh1'' @ [CR] @ ''Abcdefgh2'' @ [CR]
                    @ ''Abcdefgh1'' @ [CR]))))) = 2
   \<and> password_prompts (written (snd (collectConfirmed example_options
          (connect (''abc'' @ [CR] @ ''Abcdefgh1'' @ [CR] @ ''Abcdefgh2'' @ [CR]
                    @ ''Abcdefgh1'' @ [CR]))))) = 3
   \<and> pending (snd (collectConfirmed example_options
          (connect (''abc'' @ [CR] @ ''Abcdefgh1'' @ [CR] @ ''Abcdefgh2'' @ [CR]
                    @ ''Abcdefgh1'' @ [CR])))) = ''Abcdefgh1'' @ [CR]"
proof -
  let ?s = "connect (''abc'' @ [CR] @ ''Abcdefgh1'' @ [CR] @ ''Abcdefgh2'' @ [CR]
                    @ ''Abcdefgh1'' @ [CR])"
  have e: "collectConfirmed example_options ?s
      = (fst (collectConfirmed example_options ?s), snd (collectConfirmed example_options ?s))"
    by simp
  note u = password_budget [OF e, THEN conjunct1]
  show ?thesis
    unfolding u by code_simp
qed

text \<open>
  Claim C9. In both loops an accepted attempt leaves the loop whatever the counter is,
  also when it is zero or negative on entry; in the first loop the counter handed on is
  one less than before. The counter is compared with zero only after a rejected attempt.
  A first password accepted with the counter at 1 hands on the counter 0; the
  confirmation loop entered with 0 makes exactly one attempt, which succeeds when the
  entry is valid and equal to the first password and otherwise ends the session. After
  two rejected entries, an accepted third entry and a matching fourth entry give the
  confirmed password, with which the handler goes on to register.
\<close>

theorem accepted_attempt_proceeds:
  "(readPassword cfg (writeString ''Password: '' s) = ((True, p), s1)
      \<longrightarrow> passwordLoop cfg i s = (Some (p, i - 1), s1))
   \<and> (readPassword cfg (writeString ''Repeat your password: '' s) = ((True, p), s1)
      \<longrightarrow> repeatLoop cfg p i s = (True, s1))
   \<and> (readPassword cfg (writeString ''Password: '' s) = ((False, m), s1) \<and> sint (i - 1) \<le> 0
      \<longrightarrow> passwordLoop cfg i s
            = (None, writeString PASSWORD_FAILED (writeString (m @ [LF]) s1)))
   \<and> (readPassword cfg (writeString ''Password: '' s) = ((True, p), s1)
        \<and> readPassword cfg (writeString ''Repeat your password: '' s1) = ((ok, q), s2)
      \<longrightarrow> passwordLoop cfg 1 s = (Some (p, 0), s1)
          \<and> repeatLoop cfg p 0 s1
            = (if ok \<and> q = p then (True, s2)
               else (False, writeString PASSWORD_FAILED
                      (writeString ((if ok then ''Passwords don'' @ [CHR 0x27] @ ''t match''
                                     else q) @ [LF]) s2))))
   \<and> (readPassword cfg (writeString ''Password: '' s) = ((False, m1), s1)
        \<and> readPassword cfg (writeString ''Password: '' (writeString (m1 @ [LF]) s1))
            = ((False, m2), s2)
        \<and> readPassword cfg (writeString ''Password: '' (writeString (m2 @ [LF]) s2))
            = ((True, p), s3)
        \<and> readPassword cfg (writeString ''Repeat your password: '' s3) = ((True, p), s4)
      \<longrightarrow> collectConfirmed cfg s = (Some p, s4))"
proof (intro conjI impI)
  assume "readPassword cfg (writeString ''Password: '' s) = ((True, p), s1)"
  then show "passwordLoop cfg i s = (Some (p, i - 1), s1)"
    using passwordLoop_step by blast
next
  assume "readPassword cfg (writeString ''Repeat your password: '' s) = ((True, p), s1)"
  then show "repeatLoop cfg p i s = (True, s1)"
    using repeatLoop_step by blast
next
  assume "readPassword cfg (writeString ''Password: '' s) = ((False, m), s1) \<and> sint (i - 1) \<le> 0"
  then show "passwordLoop cfg i s
      = (None, writeString PASSWORD_FAILED (writeString (m @ [LF]) s1))"
    using passwordLoop_step by blast
next
  assume a: "readPassword cfg (writeString ''Password: '' s) = ((True, p), s1)
    \<and> readPassword cfg (writeString ''Repeat your password: '' s1) = ((ok, q), s2)"
  show "passwordLoop cfg 1 s = (Some (p, 0), s1)"
    using a passwordLoop_step [of cfg s True p s1 1] by simp
next
  assume a: "readPassword cfg (writeString ''Password: '' s) = ((True, p), s1)
    \<and> readPassword cfg (writeString ''Repeat your password: '' s1) = ((ok, q), s2)"
  show "repeatLoop cfg p 0 s1
      = (if ok \<and> q = p then (True, s2)
         else (False, writeString PASSWORD_FAILED
                (writeString ((if ok then ''Passwords don'' @ [CHR 0x27] @ ''t match''
                               else q) @ [LF]) s2)))"
    using a repeatLoop_step [of cfg s1 ok q s2 p 0] by simp
next
  assume a: "readPassword cfg (writeString ''Password: '' s) = ((False, m1), s1)
    \<and> readPassword cfg (writeString ''Password: '' (writeString (m1 @ [LF]) s1))
        = ((False, m2), s2)
    \<and> readPassword cfg (writeString ''Password: '' (writeString (m2 @ [LF]) s2))
        = ((True, p), s3)
    \<and> readPassword cfg (writeString ''Repeat your password: '' s3) = ((True, p), s4)"
  have "passwordLoop cfg 3 s = passwordLoop cfg 2 (writeString (m1 @ [LF]) s1)"
    using a passwordLoop_step [of cfg s False m1 s1 3] by simp
  also have "\<dots> = passwordLoop cfg 1 (writeString (m2 @ [LF]) s2)"
    using a passwordLoop_step [of cfg "writeString (m1 @ [LF]) s1" False m2 s2 2] by simp
  also have "\<dots> = (Some (p, 0), s3)"
    using a passwordLoop_step [of cfg "writeString (m2 @ [LF]) s2" True p s3 1] by simp
  finally have l1: "passwordLoop cfg 3 s = (Some (p, 0), s3)" .
  have l2: "repeatLoop cfg p 0 s3 = (True, s4)"
    using a repeatLoop_step [of cfg s3 True p s4 p 0] by simp
  show "collectConfirmed cfg s = (Some p, s4)"
    by (simp add: collectConfirmed_def l1 l2)
qed

theorem accepted_attempt_proceeds_witness:
  "passwordLoop example_options 0 (connect (''Abcdefgh1'' @ [CR]))
     = (Some (''Abcdefgh1'' @ replicate 23 NUL, - 1),
        \<lparr>pending = [], written = [''Password: '', [LF, CR]], calls = []\<rparr>)
   \<and> fst (handler example_options example_collaborators ''alice''
          (connect (''y'' @ [CR] @ ''abcdef'' @ [CR] @ ''abc'' @ [CR] @ ''abcdefghi'' @ [CR]
                    @ ''Abcdefgh1'' @ [CR] @ ''Abcdefgh1'' @ [CR]))) = Registered"
proof -
  have a: "readPassword example_options (writeString ''Password: '' (connect (''Abcdefgh1'' @ [CR])))
      = ((True, ''Abcdefgh1'' @ replicate 23 NUL),
         \<lparr>pending = [], written = [''Password: '', [LF, CR]], calls = []\<rparr>)"
    by code_simp
  have b: "fst (handler example_options example_collaborators ''alice''
          (connect (''y'' @ [CR] @ ''abcdef'' @ [CR] @ ''abc'' @ [CR] @ ''abcdefghi'' @ [CR]
                    @ ''Abcdefgh1'' @ [CR] @ ''Abcdefgh1'' @ [CR]))) = Registered"
    by code_simp
  show ?thesis
    using accepted_attempt_proceeds
      [of example_options "connect (''Abcdefgh1'' @ [CR])" "''Abcdefgh1'' @ replicate 23 NUL"
        "\<lparr>pending = [], written = [''Password: '', [LF, CR]], calls = []\<rparr>" 0] a b
    by simp
qed

section \<open>Password validation\<close>

lemma unat_of_nat_le: "k \<le> unat (l::uint) \<Longrightarrow> unat (of_nat k :: uint) = k"
  by (rule le_unat_uoi)

lemma readN_loop_plain:
  assumes "\<forall>b \<in> set bs. b \<noteq> DEL \<and> b \<noteq> CR \<and> (f = [] \<or> b \<in> set f)"
    "length res = unat l" "n \<le> l"
  shows "readN_loop l f False (bs @ CR # rest) res n out =
     (take (unat l) (take (unat n) res @ bs) @ drop (unat n + length bs) res,
      of_nat (min (unat l) (unat n + length bs)), rest, out @ [[LF, CR]])"
  using assms
proof (induction bs arbitrary: res n)
  case Nil
  have "unat n \<le> unat l" using Nil.prems(3) by (simp add: word_le_nat_alt)
  then show ?case using Nil.prems(2) by (simp add: min_def)
next
  case (Cons b bs)
  have b: "b \<noteq> DEL" "b \<noteq> CR" "\<not> (length f > 0 \<and> \<not> contains f b)"
    using Cons.prems(1) by (auto simp: contains_iff)
  have rest: "\<forall>b \<in> set bs. b \<noteq> DEL \<and> b \<noteq> CR \<and> (f = [] \<or> b \<in> set f)"
    using Cons.prems(1) by simp
  have nl: "unat n \<le> unat l" using Cons.prems(3) by (simp add: word_le_nat_alt)
  show ?case
  proof (cases "n < l")
    case True
    have i: "unat (n + 1) = Suc (unat n)" using True by (rule uint_inc)
    have lt: "unat n < length res" using True Cons.prems(2) by (simp add: word_less_nat_alt)
    have le: "n + 1 \<le> l" using True by (rule inc_le)
    have t: "take (Suc (unat n)) (res[unat n := b]) = take (unat n) res @ [b]"
      using lt by (simp add: take_Suc_conv_app_nth)
    have "readN_loop l f False ((b # bs) @ CR # rest) res n out
        = readN_loop l f False (bs @ CR # rest) (res[unat n := b]) (n + 1) out"
      using b True by auto
    also have "\<dots> = (take (unat l) (take (unat (n + 1)) (res[unat n := b]) @ bs)
           @ drop (unat (n + 1) + length bs) (res[unat n := b]),
         of_nat (min (unat l) (unat (n + 1) + length bs)), rest, out @ [[LF, CR]])"
      by (rule Cons.IH [OF rest _ le]) (simp add: Cons.prems(2))
    finally show ?thesis by (simp add: i t)
  next
    case False
    then have eq: "unat n = unat l" using Cons.prems(3) by (simp add: word_less_nat_alt word_le_nat_alt)
    have "readN_loop l f False ((b # bs) @ CR # rest) res n out
        = readN_loop l f False (bs @ CR # rest) res n out"
      using b False by auto
    also have "\<dots> = (take (unat l) (take (unat n) res @ bs) @ drop (unat n + length bs) res,
         of_nat (min (unat l) (unat n + length bs)), rest, out @ [[LF, CR]])"
      by (rule Cons.IH [OF rest Cons.prems(2) Cons.prems(3)])
    finally show ?thesis using eq Cons.prems(2) by simp
  qed
qed

lemma letters_plain: "b \<in> set letters \<Longrightarrow> b \<noteq> DEL \<and> b \<noteq> CR"
  by (auto simp: letters_def)

text \<open>
  Claim C3, as stated, fails: a candidate typed longer than the maximum is not rejected.
  With a maximum of 12, the 13 bytes typed here are accepted as their first 12 bytes.
\<close>

theorem readPassword_counterexample:
  "unat (PasswordMax (example_options\<lparr>PasswordMax := 12\<rparr>)) < length ''Abcdefgh12345''
   \<and> fst (readPassword (example_options\<lparr>PasswordMax := 12\<rparr>)
            (connect (''Abcdefgh12345'' @ [CR]))) = (True, ''Abcdefgh1234'')"
  by code_simp

text \<open>
  Claim C3, amended. Validation acts on the line the reader accepted, of which \<open>n\<close>
  bytes are held: never more than \<open>PasswordMax\<close>, because the reader drops the
  allowed bytes that arrive when \<open>PasswordMax\<close> are already held and does not reject
  them. For every stream: the answer is the too-short rejection exactly when fewer than
  \<open>PasswordMin\<close> bytes are held; when \<open>PasswordMax\<close> bytes are held and that is
  not below the minimum, the line is rejected for the rules when it does not match the
  pattern and accepted as it stands when it does; nothing accepted is ever longer than
  \<open>PasswordMax\<close>. For a candidate typed from the allowed letters and ended by a
  carriage return, the bytes held are its first \<open>PasswordMax\<close> bytes: a longer
  candidate is validated, and accepted, as these and never as typed. Nothing is said
  here of what is matched and returned when between \<open>PasswordMin\<close> and
  \<open>PasswordMax - 1\<close> bytes are held.
\<close>

theorem readPassword_validates:
  assumes "readN s (PasswordMax cfg) letters False = ((buf, n), s1)"
  shows "n \<le> PasswordMax cfg
    \<and> snd (readPassword cfg s) = s1
    \<and> (fst (readPassword cfg s) = (False, ''Password is too short'') \<longleftrightarrow> n < PasswordMin cfg)
    \<and> (\<not> n < PasswordMin cfg \<and> n = PasswordMax cfg \<longrightarrow>
          take (unat n) buf = buf
          \<and> fst (readPassword cfg s)
              = (if passwordRegexp cfg (take (unat n) buf) then (True, take (unat n) buf)
                 else (False, ''Password does not comply with the rules'')))
    \<and> (fst (fst (readPassword cfg s)) \<longrightarrow>
          length (snd (fst (readPassword cfg s))) \<le> unat (PasswordMax cfg))
    \<and> (\<forall>cand rest. set cand \<subseteq> set letters \<and> pending s = cand @ CR # rest \<longrightarrow>
          unat n = min (unat (PasswordMax cfg)) (length cand)
          \<and> take (unat n) buf = take (unat (PasswordMax cfg)) cand)"
proof -
  obtain bs' out' where
    run: "readN_loop (PasswordMax cfg) letters False (pending s)
            (replicate (unat (PasswordMax cfg)) NUL) 0 (written s) = (buf, n, bs', out')"
    using assms by (auto simp: readN_def split: prod.splits)
  have inv: "length buf = unat (PasswordMax cfg)" "n \<le> PasswordMax cfg"
    using readN_loop_inv [OF _ _ _ run] by simp_all
  have st: "snd (readPassword cfg s) = s1"
    using assms by (simp add: readPassword_def)
  have short: "fst (readPassword cfg s) = (False, ''Password is too short'') \<longleftrightarrow> n < PasswordMin cfg"
    using assms by (simp add: readPassword_def)
  have full: "take (unat n) buf = buf
          \<and> fst (readPassword cfg s)
              = (if passwordRegexp cfg (take (unat n) buf) then (True, take (unat n) buf)
                 else (False, ''Password does not comply with the rules''))"
    if "\<not> n < PasswordMin cfg \<and> n = PasswordMax cfg"
  proof -
    have a: "\<not> n < PasswordMin cfg"
      using that by (rule conjunct1)
    have "n = PasswordMax cfg"
      using that by (rule conjunct2)
    then have b: "unat n = length buf"
      using inv(1) by simp
    show ?thesis using assms a b by (simp add: readPassword_def)
  qed
  have len: "length (snd (fst (readPassword cfg s))) \<le> unat (PasswordMax cfg)"
    if "fst (fst (readPassword cfg s))"
    using that assms inv by (simp add: readPassword_def split: if_splits)
  have typed: "unat n = min (unat (PasswordMax cfg)) (length cand)
          \<and> take (unat n) buf = take (unat (PasswordMax cfg)) cand"
    if "set cand \<subseteq> set letters \<and> pending s = cand @ CR # rest" for cand rest
  proof -
    define L where "L = unat (PasswordMax cfg)"
    have plain: "\<forall>b \<in> set cand. b \<noteq> DEL \<and> b \<noteq> CR \<and> (letters = [] \<or> b \<in> set letters)"
      using that letters_plain by auto
    have "readN_loop (PasswordMax cfg) letters False (cand @ CR # rest)
          (replicate L NUL) 0 (written s)
        = (take L cand @ drop (length cand) (replicate L NUL),
           of_nat (min L (length cand)), rest, written s @ [[LF, CR]])"
      using readN_loop_plain [OF plain, of "replicate L NUL" "PasswordMax cfg" 0 rest "written s"]
      by (simp add: L_def)
    then have b: "buf = take L cand @ drop (length cand) (replicate L NUL)"
      and n: "n = of_nat (min L (length cand))"
      using run that by (simp_all add: L_def)
    have u: "unat n = min L (length cand)"
      unfolding n by (rule unat_of_nat_le [of _ "PasswordMax cfg"]) (simp add: L_def)
    have "take (min L (length cand)) buf = take L cand"
      by (cases "length cand \<le> L") (simp_all add: b min_def)
    then show ?thesis using u by (simp add: L_def)
  qed
  show ?thesis using inv(2) st short full len typed by blast
qed

theorem readPassword_validates_witness:
  "fst (readPassword (example_options\<lparr>PasswordMax := 12\<rparr>)
          (connect (''Abcdefgh123X'' @ [DEL] @ ''456'' @ [CR]))) = (True, ''Abcdefgh1234'')
   \<and> fst (readPassword (example_options\<lparr>PasswordMax := 12\<rparr>)
          (connect (''Abcd'' @ [CR] @ ''efgh1234'' @ [CR]))) = (False, ''Password is too short'')"
proof -
  let ?cfg = "example_options\<lparr>PasswordMax := 12\<rparr>"
  let ?s = "connect (''Abcdefgh123X'' @ [DEL] @ ''456'' @ [CR])"
  let ?t = "connect (''Abcd'' @ [CR] @ ''efgh1234'' @ [CR])"
  have r: "readN ?s (PasswordMax ?cfg) letters False
      = ((''Abcdefgh1234'', 12), \<lparr>pending = [], written = [[LF, CR]], calls = []\<rparr>)"
    by code_simp
  have q: "readN ?t (PasswordMax ?cfg) letters False
      = ((''Abcd'' @ replicate 8 NUL, 4),
         \<lparr>pending = ''efgh1234'' @ [CR], written = [[LF, CR]], calls = []\<rparr>)"
    by code_simp
  have m: "\<not> (12::uint) < PasswordMin ?cfg \<and> (12::uint) = PasswordMax ?cfg"
    by (simp add: example_options_def)
  have p: "passwordRegexp ?cfg ''Abcdefgh1234''"
    by code_simp
  have k: "(4::uint) < PasswordMin ?cfg"
    by (simp add: example_options_def)
  have "fst (readPassword ?cfg ?s) = (True, ''Abcdefgh1234'')"
    using readPassword_validates [OF r] m p by simp
  moreover have "fst (readPassword ?cfg ?t) = (False, ''Password is too short'')"
    using readPassword_validates [OF q] k by blast
  ultimately show ?thesis by simp
qed

section \<open>The session as a whole\<close>

lemma short_chunks_no_prompt:
  "\<forall>c \<in> set new. length c \<le> 3 \<Longrightarrow> password_prompts new = 0"
  by (induction new) auto

lemma readN_effect:
  assumes "readN s l f w = (r, s1)"
  shows "calls s1 = calls s \<and> (\<exists>new. written s1 = written s @ new \<and> password_prompts new = 0)"
proof -
  obtain res n bs' out' where
    run: "readN_loop l f w (pending s) (replicate (unat l) NUL) 0 (written s) = (res, n, bs', out')"
    and s1: "s1 = s\<lparr>pending := bs', written := out'\<rparr>"
    using assms by (auto simp: readN_def split: prod.splits)
  from readN_loop_chunks [OF run] obtain new where
    "out' = written s @ new" "\<forall>c \<in> set new. length c \<le> 3" by blast
  then show ?thesis using s1 short_chunks_no_prompt by auto
qed

lemma token_attempt_effect:
  assumes "token_attempt cfg token s = (m, s1)"
  shows "calls s1 = calls s \<and> (\<exists>new. written s1 = written s @ new \<and> password_prompts new = 0)"
proof -
  obtain r where r: "readN (writeString TOKEN_BODY s) (TokenLength cfg) [] True = (r, s1)"
    using assms by (auto simp: token_attempt_def split: prod.splits)
  from readN_effect [OF r] obtain new where
    "calls s1 = calls s" "written s1 = written s @ ([TOKEN_BODY] @ new)" "password_prompts new = 0"
    by (auto simp: writeString_def)
  moreover have "password_prompts ([TOKEN_BODY] @ new) = password_prompts new"
    by (simp add: TOKEN_BODY_def)
  ultimately show ?thesis by metis
qed

lemma write_effect:
  "calls (writeString m s) = calls s \<and> written (writeString m s) = written s @ [m]"
  by (simp add: writeString_def)

lemma retry_no_prompt: "password_prompts [TOKEN_RETRY i] = 0" "password_prompts [TOKEN_FAILED] = 0"
  by (simp_all add: TOKEN_RETRY_def TOKEN_FAILED_def)

lemma tokenLoop_effect:
  assumes "tokenLoop cfg token 3 s = (ok, s')"
  shows "calls s' = calls s \<and> (\<exists>new. written s' = written s @ new \<and> password_prompts new = 0)"
proof -
  obtain m1 s1 where a1: "token_attempt cfg token s = (m1, s1)" by fastforce
  obtain m2 s2 where a2: "token_attempt cfg token (writeString (TOKEN_RETRY 2) s1) = (m2, s2)"
    by fastforce
  obtain m3 s3 where a3: "token_attempt cfg token (writeString (TOKEN_RETRY 1) s2) = (m3, s3)"
    by fastforce
  from token_attempt_effect [OF a1] obtain n1 where
    e1: "calls s1 = calls s" "written s1 = written s @ n1" "password_prompts n1 = 0" by blast
  from token_attempt_effect [OF a2] obtain n2 where
    e2: "calls s2 = calls s1" "written s2 = written s1 @ [TOKEN_RETRY 2] @ n2"
      "password_prompts n2 = 0" by (auto simp: writeString_def)
  from token_attempt_effect [OF a3] obtain n3 where
    e3: "calls s3 = calls s2" "written s3 = written s2 @ [TOKEN_RETRY 1] @ n3"
      "password_prompts n3 = 0" by (auto simp: writeString_def)
  have cases: "s' = s1 \<or> s' = s2 \<or> s' = s3 \<or> s' = writeString TOKEN_FAILED s3"
    using assms a1 a2 a3 by (auto simp: tokenLoop_unfolded split: bool.splits)
  have p1: "written s1 = written s @ n1 \<and> password_prompts n1 = 0" using e1 by simp
  have p2: "written s2 = written s @ (n1 @ [TOKEN_RETRY 2] @ n2)
      \<and> password_prompts (n1 @ [TOKEN_RETRY 2] @ n2) = 0"
    using e1 e2 retry_no_prompt by simp
  have p3: "written s3 = written s @ (n1 @ [TOKEN_RETRY 2] @ n2 @ [TOKEN_RETRY 1] @ n3)
      \<and> password_prompts (n1 @ [TOKEN_RETRY 2] @ n2 @ [TOKEN_RETRY 1] @ n3) = 0"
    using e1 e2 e3 retry_no_prompt by simp
  have p4: "written (writeString TOKEN_FAILED s3)
        = written s @ (n1 @ [TOKEN_RETRY 2] @ n2 @ [TOKEN_RETRY 1] @ n3 @ [TOKEN_FAILED])
      \<and> password_prompts (n1 @ [TOKEN_RETRY 2] @ n2 @ [TOKEN_RETRY 1] @ n3 @ [TOKEN_FAILED]) = 0"
    using e1 e2 e3 retry_no_prompt by (simp add: writeString_def)
  have c: "calls s' = calls s" using cases e1 e2 e3 by (auto simp: writeString_def)
  from cases p1 p2 p3 p4 have "\<exists>new. written s' = written s @ new \<and> password_prompts new = 0"
    by metis
  then show ?thesis using c by simp
qed

lemma collectConfirmed_calls:
  assumes "collectConfirmed cfg s = (r, s')"
  shows "calls s' = calls s"
proof -
  obtain r1 s1 where l1: "passwordLoop cfg (of_nat 3) s = (r1, s1)" by (metis surj_pair)
  from passwordLoop_counts [OF _ _ l1] obtain new1 where
    c1: "calls s1 = calls s"
    and some: "\<forall>p j. r1 = Some (p, j) \<longrightarrow> password_prompts new1 \<le> 3
          \<and> j = of_nat (3 - password_prompts new1)"
    by auto
  show ?thesis
  proof (cases r1)
    case None
    then show ?thesis using assms l1 c1 by (simp add: collectConfirmed_def)
  next
    case (Some pj)
    obtain p j where pj: "pj = (p, j)" by (metis surj_pair)
    then have j: "j = of_nat (3 - password_prompts new1)" using some Some by simp
    obtain ok s2 where l2: "repeatLoop cfg p (of_nat (3 - password_prompts new1)) s1 = (ok, s2)"
      by (metis surj_pair)
    from repeatLoop_counts [OF _ l2] have c2: "calls s2 = calls s1" by auto
    have "s' = s2" using assms l1 l2 Some pj j by (auto simp: collectConfirmed_def split: bool.splits)
    then show ?thesis using c1 c2 by simp
  qed
qed


lemma directoryFlow_cases:
  assumes "directoryFlow cfg env user mail s = (out, s')"
  shows
   "(out = BindFatal \<and> bind_err env \<and> calls s' = calls s @ [Bind] \<and> written s' = written s)
  \<or> (out = SearchFatal \<and> \<not> bind_err env \<and> search_entries env user = None
       \<and> calls s' = calls s @ [Bind, Search user] \<and> written s' = written s)
  \<or> (out = AlreadyRegistered \<and> \<not> bind_err env
       \<and> (\<exists>k. search_entries env user = Some k \<and> 0 < k)
       \<and> calls s' = calls s @ [Bind, Search user]
       \<and> written s' = written s @ [ALREADY_REGISTERED (LldapLogin cfg)])
  \<or> (out = PasswordFailed \<and> \<not> bind_err env \<and> search_entries env user = Some 0
       \<and> calls s' = calls s @ [Bind, Search user]
       \<and> collectConfirmed cfg
             (writeString (PASWORD_RULES (PasswordMin cfg) (PasswordMax cfg))
               (writeString
                 (''You'' @ [CHR 0x27]
                    @ ''re not registered. Proceeding with the registration process''
                    @ [LF]) (invoke (Search user) (invoke Bind s)))) = (None, s'))
  \<or> ((out = RegisterFatal \<or> out = Registered) \<and> \<not> bind_err env
       \<and> search_entries env user = Some 0
       \<and> (\<exists>passwd s2.
             collectConfirmed cfg
               (writeString (PASWORD_RULES (PasswordMin cfg) (PasswordMax cfg))
                 (writeString
                   (''You'' @ [CHR 0x27]
                      @ ''re not registered. Proceeding with the registration process''
                      @ [LF]) (invoke (Search user) (invoke Bind s)))) = (Some passwd, s2)
           \<and> calls s' = calls s @ [Bind, Search user, Add (''uid='' @ user @ '','' @ LdapUserScope cfg) mail]
                 @ (if add_err env (''uid='' @ user @ '','' @ LdapUserScope cfg) then []
                    else [PasswordModify (''uid='' @ user @ '','' @ LdapUserScope cfg) passwd])
           \<and> (out = Registered \<longrightarrow>
                 written s' = written s2
                   @ [''Registering user with the given password'' @ [LF],
                      ALREADY_REGISTERED (LldapLogin cfg)])))"
proof -
  let ?s1 = "writeString (PASWORD_RULES (PasswordMin cfg) (PasswordMax cfg))
                 (writeString
                   (''You'' @ [CHR 0x27]
                      @ ''re not registered. Proceeding with the registration process''
                      @ [LF]) (invoke (Search user) (invoke Bind s)))"
  obtain r s2 where cc: "collectConfirmed cfg ?s1 = (r, s2)" by (metis surj_pair)
  have c2: "calls s2 = calls s @ [Bind, Search user]"
    using collectConfirmed_calls [OF cc] by (simp add: writeString_def invoke_def)
  show ?thesis
  proof (cases "bind_err env")
    case True
    then show ?thesis using assms by (auto simp: directoryFlow_def bind_def invoke_def)
  next
    case nb: False
    show ?thesis
    proof (cases "search_entries env user")
      case None
      then show ?thesis using assms nb
        by (auto simp: directoryFlow_def bind_def exists_def invoke_def)
    next
      case (Some k)
      show ?thesis
      proof (cases "0 < k")
        case True
        then show ?thesis using assms nb Some
          by (auto simp: directoryFlow_def bind_def exists_def invoke_def writeString_def)
      next
        case False
        then have k0: "search_entries env user = Some 0" using Some by simp
        have df: "directoryFlow cfg env user mail s =
            (case r of None \<Rightarrow> (PasswordFailed, s2)
             | Some passwd \<Rightarrow>
                 (case register cfg env user mail passwd
                         (writeString (''Registering user with the given password'' @ [LF]) s2) of
                    (Some e, s4) \<Rightarrow> (RegisterFatal, s4)
                  | (None, s4) \<Rightarrow>
                      (Registered, writeString (ALREADY_REGISTERED (LldapLogin cfg)) s4)))"
          using nb k0 cc by (simp add: directoryFlow_def bind_def exists_def)
        show ?thesis
        proof (cases r)
          case None
          then show ?thesis using assms df nb k0 c2 cc by simp
        next
          case (Some passwd)
          then have "(out = RegisterFatal \<or> out = Registered)
            \<and> calls s' = calls s @ [Bind, Search user, Add (''uid='' @ user @ '','' @ LdapUserScope cfg) mail]
                 @ (if add_err env (''uid='' @ user @ '','' @ LdapUserScope cfg) then []
                    else [PasswordModify (''uid='' @ user @ '','' @ LdapUserScope cfg) passwd])
            \<and> (out = Registered \<longrightarrow>
                 written s' = written s2
                   @ [''Registering user with the given password'' @ [LF],
                      ALREADY_REGISTERED (LldapLogin cfg)])"
            using assms df c2
            by (auto simp: register_def Let_def invoke_def writeString_def split: if_splits)
          then show ?thesis using nb k0 cc Some by blast
        qed
      qed
    qed
  qed
qed

lemma handler_cases:
  assumes "handler cfg env user (connect inp) = (out, s')"
  shows
   "(out = Declined \<and> calls s' = [] \<and> password_prompts (written s') = 0)
  \<or> ((out = MailFailed \<or> out = TokenFailed)
       \<and> calls s' = [SendMail (user @ ToSuffix cfg) (randomString env (TokenLength cfg))]
       \<and> password_prompts (written s') = 0)
  \<or> (\<exists>s3. calls s3 = [SendMail (user @ ToSuffix cfg) (randomString env (TokenLength cfg))]
        \<and> password_prompts (written s3) = 0
        \<and> directoryFlow cfg env user (user @ ToSuffix cfg) s3 = (out, s'))"
proof -
  let ?mail = "user @ ToSuffix cfg"
  let ?tok = "randomString env (TokenLength cfg)"
  obtain buf n s1 where
    r: "readN (writeString (WELCOME_BODY ?mail) (connect inp)) 1 [CHR ''y'', CHR ''n''] True
        = ((buf, n), s1)"
    by (metis surj_pair)
  from readN_effect [OF r] obtain new where
    c1: "calls s1 = []" and w1: "written s1 = [WELCOME_BODY ?mail] @ new"
    and p1: "password_prompts new = 0"
    by (auto simp: writeString_def connect_def)
  have pw: "password_prompts (written s1) = 0"
    using w1 p1 by (simp add: WELCOME_BODY_def)
  show ?thesis
  proof (cases "n < 1 \<or> buf ! 0 \<noteq> CHR ''y''")
    case True
    then have "out = Declined" "s' = writeString (''Bye!'' @ [LF]) s1"
      using assms r by (auto simp: handler_def Let_def)
    then show ?thesis using c1 pw by (simp add: writeString_def)
  next
    case consent: False
    show ?thesis
    proof (cases "sendmail_err env ?mail ?tok")
      case True
      then have "out = MailFailed"
        "s' = writeString (''Could not send mail'' @ [LF]) (invoke (SendMail ?mail ?tok) s1)"
        using assms r consent by (auto simp: handler_def Let_def sendmail_def)
      then show ?thesis using c1 pw by (simp add: writeString_def invoke_def)
    next
      case sent: False
      let ?s2 = "invoke (SendMail ?mail ?tok) s1"
      obtain ok s3 where t: "tokenLoop cfg ?tok 3 ?s2 = (ok, s3)" by (metis surj_pair)
      from tokenLoop_effect [OF t] obtain new3 where
        c3: "calls s3 = [SendMail ?mail ?tok]" and w3: "written s3 = written s1 @ new3"
        and p3: "password_prompts new3 = 0"
        using c1 by (auto simp: invoke_def)
      have pw3: "password_prompts (written s3) = 0" using w3 p3 pw by simp
      have h: "handler cfg env user (connect inp) =
          (if ok then directoryFlow cfg env user ?mail s3 else (TokenFailed, s3))"
        using r consent sent t by (auto simp: handler_def Let_def sendmail_def)
      show ?thesis
      proof (cases ok)
        case True
        then show ?thesis using assms h c3 pw3 by auto
      next
        case False
        then show ?thesis using assms h c3 pw3 by auto
      qed
    qed
  qed
qed




text \<open>
  The calls of any session, from a fresh connection: each add or password-set call comes
  after the search for the user, there is at most one add call, and the add is for
  \<open>uid=user,scope\<close> with the mail address \<open>user @ ToSuffix\<close>; the password-set call
  carries what the password collection returned.
\<close>

lemma registration_order:
  assumes "handler cfg env user (connect inp) = (out, s')"
  shows "searched_first user False (calls s')
    \<and> length (filter (\<lambda>c. case c of Add d m \<Rightarrow> True | _ \<Rightarrow> False) (calls s')) \<le> 1
    \<and> (Search user \<in> set (calls s') \<and> search_entries env user = Some 0
          \<and> out \<noteq> PasswordFailed \<longrightarrow>
        (\<exists>s1 s2 passwd. collectConfirmed cfg s1 = (Some passwd, s2)
           \<and> registration_calls (calls s')
               = Add (''uid='' @ user @ '','' @ LdapUserScope cfg) (user @ ToSuffix cfg)
                 # (if add_err env (''uid='' @ user @ '','' @ LdapUserScope cfg) then []
                    else [PasswordModify (''uid='' @ user @ '','' @ LdapUserScope cfg) passwd])))
    \<and> (\<forall>s mail passwd s2.
          \<not> bind_err env \<and> search_entries env user = Some 0
          \<and> collectConfirmed cfg
               (writeString (PASWORD_RULES (PasswordMin cfg) (PasswordMax cfg))
                 (writeString
                   (''You'' @ [CHR 0x27]
                      @ ''re not registered. Proceeding with the registration process''
                      @ [LF]) (invoke (Search user) (invoke Bind s)))) = (Some passwd, s2)
          \<longrightarrow> calls (snd (directoryFlow cfg env user mail s))
                = calls s @ [Bind, Search user,
                             Add (''uid='' @ user @ '','' @ LdapUserScope cfg) mail]
                  @ (if add_err env (''uid='' @ user @ '','' @ LdapUserScope cfg) then []
                     else [PasswordModify (''uid='' @ user @ '','' @ LdapUserScope cfg) passwd]))"
proof -
  let ?dn = "''uid='' @ user @ '','' @ LdapUserScope cfg"
  let ?mail = "user @ ToSuffix cfg"
  let ?tok = "randomString env (TokenLength cfg)"
  have shape: "calls s' = [] \<or> calls s' = [SendMail ?mail ?tok]
      \<or> calls s' = [SendMail ?mail ?tok, Bind]
      \<or> calls s' = [SendMail ?mail ?tok, Bind, Search user]
      \<or> (\<exists>passwd. calls s' = [SendMail ?mail ?tok, Bind, Search user, Add ?dn ?mail]
             @ (if add_err env ?dn then [] else [PasswordModify ?dn passwd]))"
  proof -
    from handler_cases [OF assms] consider
      "calls s' = []" | "calls s' = [SendMail ?mail ?tok]"
      | s3 where "calls s3 = [SendMail ?mail ?tok]"
          "directoryFlow cfg env user ?mail s3 = (out, s')"
      by auto
    then show ?thesis
    proof cases
      case 3
      from directoryFlow_cases [OF 3(2)] 3(1) show ?thesis by auto
    qed simp_all
  qed
  have first: "searched_first user False (calls s')"
    using shape by auto
  have once: "length (filter (\<lambda>c. case c of Add d m \<Rightarrow> True | _ \<Rightarrow> False) (calls s')) \<le> 1"
    using shape by auto
  have reg: "\<exists>s1 s2 passwd. collectConfirmed cfg s1 = (Some passwd, s2)
           \<and> registration_calls (calls s')
               = Add ?dn ?mail # (if add_err env ?dn then [] else [PasswordModify ?dn passwd])"
    if "Search user \<in> set (calls s')" "search_entries env user = Some 0" "out \<noteq> PasswordFailed"
  proof -
    from handler_cases [OF assms] that(1) obtain s3 where
      c3: "calls s3 = [SendMail ?mail ?tok]"
      and d: "directoryFlow cfg env user ?mail s3 = (out, s')"
      by auto
    from directoryFlow_cases [OF d] that c3 obtain passwd s1 s2 where
      "collectConfirmed cfg s1 = (Some passwd, s2)"
      "calls s' = calls s3 @ [Bind, Search user, Add ?dn ?mail]
                 @ (if add_err env ?dn then [] else [PasswordModify ?dn passwd])"
      by auto
    then show ?thesis using c3 by (auto simp: registration_calls_def)
  qed
  have flow: "calls (snd (directoryFlow cfg env user mail s))
                = calls s @ [Bind, Search user, Add ?dn mail]
                  @ (if add_err env ?dn then [] else [PasswordModify ?dn passwd])"
    if "\<not> bind_err env" "search_entries env user = Some 0"
      "collectConfirmed cfg
               (writeString (PASWORD_RULES (PasswordMin cfg) (PasswordMax cfg))
                 (writeString
                   (''You'' @ [CHR 0x27]
                      @ ''re not registered. Proceeding with the registration process''
                      @ [LF]) (invoke (Search user) (invoke Bind s)))) = (Some passwd, s2)"
    for s mail passwd s2
  proof -
    have d: "directoryFlow cfg env user mail s
        = (fst (directoryFlow cfg env user mail s), snd (directoryFlow cfg env user mail s))"
      by simp
    from directoryFlow_cases [OF d] that show ?thesis by auto
  qed
  show ?thesis using first once reg flow by blast
qed

text \<open>
  Claim C6 fails on the program in the password argument. In this session the user is
  not registered and types \<open>Abcdefgh1\<close> at both password prompts. The registration
  is made once, after the search, with the right entry and mail address, but the
  password handed to the password-set call is the whole 32-byte buffer of the reader,
  \<open>Abcdefgh1\<close> followed by 23 zero bytes, and not the 9 bytes the user confirmed:
  \<^verbatim>\<open>readPassword\<close> converts the whole buffer (line 181) although it holds the count.
\<close>

theorem registered_password_padded:
  "registration_calls (calls (snd (handler example_options example_collaborators ''alice''
        (connect (''y'' @ [CR] @ ''abcdef'' @ [CR] @ ''Abcdefgh1'' @ [CR] @ ''Abcdefgh1'' @ [CR])))))
       = [Add ''uid=alice,ou=people,dc=example,dc=com'' ''alice@localhost'',
          PasswordModify ''uid=alice,ou=people,dc=example,dc=com''
            (''Abcdefgh1'' @ replicate 23 NUL)]
   \<and> ''Abcdefgh1'' @ replicate 23 NUL \<noteq> ''Abcdefgh1''
   \<and> length (''Abcdefgh1'' @ replicate 23 NUL) = 32"
  by code_simp

text \<open>
  Claim C1 fails on the program. In this session the user is not registered, both
  password entries are accepted and equal, and the registration succeeds; the last
  write is the already-registered message (line 330 formats \<^verbatim>\<open>ALREADY_REGISTERED\<close>),
  not the registration-success message, whose constant no line of the program uses.
\<close>

theorem registration_message:
  "fst (handler example_options example_collaborators ''alice''
          (connect (''y'' @ [CR] @ ''abcdef'' @ [CR] @ ''Abcdefgh1'' @ [CR] @ ''Abcdefgh1'' @ [CR])))
     = Registered
   \<and> last (written (snd (handler example_options example_collaborators ''alice''
          (connect (''y'' @ [CR] @ ''abcdef'' @ [CR] @ ''Abcdefgh1'' @ [CR] @ ''Abcdefgh1'' @ [CR])))))
     = ALREADY_REGISTERED ''https://localhost:17170/login''
   \<and> last (written (snd (handler example_options example_collaborators ''alice''
          (connect (''y'' @ [CR] @ ''abcdef'' @ [CR] @ ''Abcdefgh1'' @ [CR] @ ''Abcdefgh1'' @ [CR])))))
     \<noteq> REGISTRATION_SUCCESS ''https://localhost:17170/login''"
  by code_simp

end
